theory Spec2Isabelle
  imports Main "HOL-Library.Word"
begin

unbundle bit_operations_syntax

section \<open>Buffers, the DataView and the Int32Array view\<close>

text \<open>
  The semaphore of \<^verbatim>\<open>Semaphore.ts\<close> (line numbers below are those of its documented,
  136-line version) keeps its only shared state in one element of an
  \<^verbatim>\<open>Int32Array\<close> over a \<^verbatim>\<open>SharedArrayBuffer\<close>. A buffer is its kind and its bytes; a typed
  array is a view (buffer, byte offset, number of elements).
\<close>

type_synonym byte = "8 word"
type_synonym int32 = "32 word"

datatype buffer_kind = ArrayBuffer | SharedArrayBuffer

record buffer =
  kind :: buffer_kind
  bytes :: "byte list"

record Int32Array =
  buffer :: buffer
  byteOffset :: nat
  length' :: nat

text \<open>
  The failures of the source. The constructor throws a \<^verbatim>\<open>TypeError\<close> ("is not a shared typed
  array": \<open>InvalidBackingStore\<close>) and an \<^verbatim>\<open>Error\<close> ("does not have length 1":
  \<open>InvalidLength\<close>); \<^verbatim>\<open>acquire\<close> throws "num may not be equal to or less than zero"
  (\<open>InvalidArgument\<close>); \<^verbatim>\<open>release\<close> throws "Amount to release is greater than the amount
  acquired" (\<open>OverRelease\<close>). \<open>RangeError\<close> is what the runtime raises for a write outside a
  buffer or a view over a byte length that is no multiple of four.
\<close>

datatype error = InvalidBackingStore | InvalidLength | InvalidArgument | OverRelease | RangeError

text \<open>
  The numbers of the source are IEEE doubles. The development speaks about integer values,
  written as \<open>int\<close>. Comparisons (\<open><\<close>, \<open><=\<close>, \<open>>\<close>, \<open>===\<close>) are exact. A sum or a
  difference is the exact result rounded to the nearest double, ties to the even significand
  (\<open>double\<close>): an integer of magnitude up to \<open>2^53\<close> is a double, so below that the
  arithmetic is exact; above, a double has 53 significant bits, and \<open>bitlen\<close> counts the bits
  of the magnitude. An argument of a call is a double as well: an \<open>int\<close> that is no double
  stands for no call of the source. A result beyond the largest finite double, about
  \<open>1.8 * 10^308\<close>, is an infinity in the source and a large integer of the same sign here;
  what is proved below of a sum or a difference has its operands bounded far below that, or
  is about the sign alone.
\<close>

fun bitlen :: "nat \<Rightarrow> nat" where
  "bitlen n = (if n = 0 then 0 else Suc (bitlen (n div 2)))"

definition double :: "int \<Rightarrow> int" where
  "double x =
     (if \<bar>x\<bar> \<le> 2 ^ 53 then x
      else (let k = bitlen (nat \<bar>x\<bar>) - 53;
                q = \<bar>x\<bar> div 2 ^ k;
                r = \<bar>x\<bar> mod 2 ^ k
            in sgn x * 2 ^ k *
                 (if 2 ^ k < 2 * r \<or> (2 * r = 2 ^ k \<and> odd q) then q + 1 else q)))"

definition js_add :: "int \<Rightarrow> int \<Rightarrow> int" where
  "js_add a b = double (a + b)"

definition js_sub :: "int \<Rightarrow> int \<Rightarrow> int" where
  "js_sub a b = double (a - b)"

text \<open>\<^verbatim>\<open>ToInt32\<close>: an integer is reduced modulo \<open>2^32\<close>; \<open>sint\<close> reads the element back.\<close>

definition ToInt32 :: "int \<Rightarrow> int32" where
  "ToInt32 v = word_of_int v"

definition int32_bytes :: "int32 \<Rightarrow> bool \<Rightarrow> byte list" where
  "int32_bytes w littleEndian =
     (let bs = [ucast w, ucast (drop_bit 8 w), ucast (drop_bit 16 w), ucast (drop_bit 24 w)]
      in if littleEndian then bs else rev bs)"

text \<open>
  A typed array reads its elements in the byte order of the platform, which is little-endian
  on the engines the library runs on (browsers with \<^verbatim>\<open>SharedArrayBuffer\<close>).
\<close>

fun int32_of_bytes :: "byte list \<Rightarrow> int32" where
  "int32_of_bytes [b0, b1, b2, b3] =
     ucast b0 OR push_bit 8 (ucast b1) OR push_bit 16 (ucast b2) OR push_bit 24 (ucast b3)"
| "int32_of_bytes _ = 0"

definition new_SharedArrayBuffer :: "nat \<Rightarrow> buffer" where
  "new_SharedArrayBuffer n = \<lparr>kind = SharedArrayBuffer, bytes = replicate n 0\<rparr>"

definition DataView_setInt32 :: "buffer \<Rightarrow> nat \<Rightarrow> int \<Rightarrow> bool \<Rightarrow> error + buffer" where
  "DataView_setInt32 b off v littleEndian =
     (if length (bytes b) < off + 4 then Inl RangeError
      else Inr (b\<lparr>bytes := take off (bytes b) @ int32_bytes (ToInt32 v) littleEndian
                              @ drop (off + 4) (bytes b)\<rparr>))"

definition new_Int32Array :: "buffer \<Rightarrow> error + Int32Array" where
  "new_Int32Array b =
     (if length (bytes b) mod 4 \<noteq> 0 then Inl RangeError
      else Inr \<lparr>buffer = b, byteOffset = 0, length' = length (bytes b) div 4\<rparr>)"

definition Int32Array_get :: "Int32Array \<Rightarrow> nat \<Rightarrow> int32" where
  "Int32Array_get a i = int32_of_bytes (take 4 (drop (byteOffset a + 4 * i) (bytes (buffer a))))"

section \<open>Atomics on the shared element\<close>

text \<open>
  \<^verbatim>\<open>Atomics.load\<close> returns the element as a signed number. \<^verbatim>\<open>Atomics.compareExchange\<close>
  converts both arguments with \<^verbatim>\<open>ToInt32\<close>, stores the replacement when the element equals the
  expected value, and returns the element it found. \<^verbatim>\<open>Atomics.wait\<close> and
  \<^verbatim>\<open>Atomics.waitAsync\<close> compare the element with the given value in one atomic step: they answer
  "not-equal" at once, or put the caller to sleep until a notification.
\<close>

definition Atomics_load :: "int32 \<Rightarrow> int" where
  "Atomics_load c = sint c"

definition Atomics_compareExchange :: "int32 \<Rightarrow> int \<Rightarrow> int \<Rightarrow> int \<times> int32" where
  "Atomics_compareExchange c expected replacement =
     (sint c, if c = ToInt32 expected then ToInt32 replacement else c)"

datatype wait_result = NotEqual | Sleeps

definition Atomics_wait :: "int32 \<Rightarrow> int \<Rightarrow> wait_result" where
  "Atomics_wait c v = (if c = ToInt32 v then Sleeps else NotEqual)"

section \<open>The Semaphore object\<close>

record Semaphore =
  priv_acquiredPermits :: int
  priv_int32Array :: Int32Array

text \<open>The constructor (lines 25-35): two checks, in this order, then the two fields.\<close>

definition new_Semaphore :: "Int32Array \<Rightarrow> error + Semaphore" where
  "new_Semaphore int32Array =
     (if kind (buffer int32Array) \<noteq> SharedArrayBuffer then Inl InvalidBackingStore
      else if length' int32Array \<noteq> 1 then Inl InvalidLength
      else Inr \<lparr>priv_acquiredPermits = 0, priv_int32Array = int32Array\<rparr>)"

definition acquiredPermits :: "Semaphore \<Rightarrow> int" where
  "acquiredPermits this = priv_acquiredPermits this"

definition availablePermits :: "Semaphore \<Rightarrow> int" where
  "availablePermits this = Atomics_load (Int32Array_get (priv_int32Array this) 0)"

text \<open>\<^verbatim>\<open>fromCapacity\<close> (lines 131-135): four fresh shared bytes, the capacity written
  little-endian through a DataView, and the constructor on an Int32Array over them.\<close>

definition fromCapacity :: "int \<Rightarrow> error + Semaphore" where
  "fromCapacity permits =
     (let sab = new_SharedArrayBuffer 4 in
      case DataView_setInt32 sab 0 permits True of
        Inl e \<Rightarrow> Inl e
      | Inr sab' \<Rightarrow> (case new_Int32Array sab' of
                       Inl e \<Rightarrow> Inl e
                     | Inr a \<Rightarrow> new_Semaphore a))"

section \<open>Instances, frames and atomic steps\<close>

text \<open>
  Several Semaphore objects, each in an execution context of its own, view the same element;
  the constructor admits only views of length one, so the shared state of a system is the
  single element \<open>cell\<close>. An \<open>agent\<close> is one object together with its context: the local
  counter \<^verbatim>\<open>_acquiredPermits\<close>, the method body the context is executing (a context runs one
  body at a time, to completion or to its next \<^verbatim>\<open>await\<close>), and the \<^verbatim>\<open>acquireAsync\<close> bodies
  suspended at their \<^verbatim>\<open>await\<close>. Objects that share a context have fewer interleavings than
  objects in contexts of their own, so giving every object its own context loses no behaviour.
  For agent \<open>i\<close> of a system \<open>s\<close> the accessor \<^verbatim>\<open>acquiredPermits\<close> returns
  \<open>acquired (agents s ! i)\<close> and the accessor \<^verbatim>\<open>availablePermits\<close> returns
  \<open>Atomics_load (cell s)\<close>.

  A frame is a method body in progress: the method, its argument \<^verbatim>\<open>num\<close> and the place in
  the \<^verbatim>\<open>while (true)\<close> loop. \<open>Load\<close> stands before \<^verbatim>\<open>Atomics.load\<close>; \<open>Loaded available\<close>
  stands after it, before the one atomic operation the iteration goes on to
  (\<^verbatim>\<open>Atomics.wait\<close>, \<^verbatim>\<open>Atomics.waitAsync\<close> or \<^verbatim>\<open>Atomics.compareExchange\<close>); \<open>Waiting\<close> is asleep
  inside the wait; \<open>Woken\<close> is a suspended \<^verbatim>\<open>acquireAsync\<close> whose awaited value has settled
  and that runs on when its context is free; \<open>Notify\<close> stands before the \<^verbatim>\<open>Atomics.notify\<close>
  of \<^verbatim>\<open>release\<close>.
\<close>

datatype operation = Acquire | Release | AcquireAsync

datatype pc = Load | Loaded int | Waiting | Woken | Notify

datatype frame = Frame operation int pc

record agent =
  acquired :: int
  running :: "frame option"
  parked :: "frame list"

text \<open>The history records every successful compare-and-exchange, latest first: which
  object took or gave back how many permits. It is a ghost field: no step reads it.\<close>

datatype event = Acquired nat int | Released nat int

record system =
  cell :: int32
  agents :: "agent list"
  history :: "event list"

definition put :: "nat \<Rightarrow> agent \<Rightarrow> system \<Rightarrow> system" where
  "put i a s = s\<lparr>agents := (agents s)[i := a]\<rparr>"

text \<open>
  Entering a method. \<^verbatim>\<open>acquire\<close> (lines 64-66) throws when \<^verbatim>\<open>num <= 0\<close>; \<^verbatim>\<open>release\<close>
  (lines 88-90) throws when \<^verbatim>\<open>num > this._acquiredPermits\<close>; \<^verbatim>\<open>acquireAsync\<close> (line 110)
  goes straight to its loop. A throw leaves the object as it is at that point.
\<close>

definition enter :: "operation \<Rightarrow> int \<Rightarrow> agent \<Rightarrow> agent \<times> error option" where
  "enter m num this =
     (case m of
        Acquire \<Rightarrow>
          if num \<le> 0 then (this, Some InvalidArgument)
          else (this\<lparr>running := Some (Frame Acquire num Load)\<rparr>, None)
      | Release \<Rightarrow>
          if num > acquired this then (this, Some OverRelease)
          else (this\<lparr>running := Some (Frame Release num Load)\<rparr>, None)
      | AcquireAsync \<Rightarrow> (this\<lparr>running := Some (Frame AcquireAsync num Load)\<rparr>, None))"

definition invoke :: "nat \<Rightarrow> operation \<Rightarrow> int \<Rightarrow> system \<Rightarrow> system \<times> error option" where
  "invoke i m num s =
     (if i < length (agents s) \<and> running (agents s ! i) = None then
        (let (this, e) = enter m num (agents s ! i) in (put i this s, e))
      else (s, None))"

text \<open>
  One iteration of \<^verbatim>\<open>acquire\<close> (lines 70-78) and of \<^verbatim>\<open>acquireAsync\<close> (lines 113-122) with
  \<^verbatim>\<open>available\<close> in hand. Too few permits: the wait answers "not-equal" (\<^verbatim>\<open>acquire\<close> loops,
  \<^verbatim>\<open>acquireAsync\<close> awaits a settled value and is suspended until its context is free) or puts
  the body to sleep (\<^verbatim>\<open>acquire\<close> blocks its context, \<^verbatim>\<open>acquireAsync\<close> is suspended). Enough
  permits: the compare-and-exchange; when it returns \<^verbatim>\<open>available\<close> the counter grows and the
  body ends, otherwise the loop starts again. \<^verbatim>\<open>available - num\<close> and
  \<^verbatim>\<open>this._acquiredPermits += num\<close> are a difference and a sum of doubles.
\<close>

definition acquire_attempt :: "nat \<Rightarrow> operation \<Rightarrow> int \<Rightarrow> int \<Rightarrow> system \<Rightarrow> system" where
  "acquire_attempt i m num available s =
     (let this = agents s ! i in
      if available < num then
        (case Atomics_wait (cell s) available of
           NotEqual \<Rightarrow>
             if m = AcquireAsync
             then put i (this\<lparr>running := None, parked := parked this @ [Frame m num Woken]\<rparr>) s
             else put i (this\<lparr>running := Some (Frame m num Load)\<rparr>) s
         | Sleeps \<Rightarrow>
             if m = AcquireAsync
             then put i (this\<lparr>running := None, parked := parked this @ [Frame m num Waiting]\<rparr>) s
             else put i (this\<lparr>running := Some (Frame m num Waiting)\<rparr>) s)
      else
        (let (old, c) = Atomics_compareExchange (cell s) available (js_sub available num) in
         if old = available
         then put i (this\<lparr>acquired := js_add (acquired this) num, running := None\<rparr>)
                (s\<lparr>cell := c, history := Acquired i num # history s\<rparr>)
         else put i (this\<lparr>running := Some (Frame m num Load)\<rparr>) (s\<lparr>cell := c\<rparr>)))"

text \<open>One iteration of \<^verbatim>\<open>release\<close> (lines 93-98) with \<^verbatim>\<open>available\<close> in hand;
  \<^verbatim>\<open>available + num\<close> and \<^verbatim>\<open>this._acquiredPermits -= num\<close> are again those of doubles.\<close>

definition release_attempt :: "nat \<Rightarrow> int \<Rightarrow> int \<Rightarrow> system \<Rightarrow> system" where
  "release_attempt i num available s =
     (let this = agents s ! i;
          (old, c) = Atomics_compareExchange (cell s) available (js_add available num) in
      if old = available
      then put i (this\<lparr>acquired := js_sub (acquired this) num,
                       running := Some (Frame Release num Notify)\<rparr>)
             (s\<lparr>cell := c, history := Released i num # history s\<rparr>)
      else put i (this\<lparr>running := Some (Frame Release num Load)\<rparr>) (s\<lparr>cell := c\<rparr>))"

text \<open>
  \<^verbatim>\<open>Atomics.notify(this._int32Array, 0)\<close> has no count: it wakes every waiter on the element.
  A blocked \<^verbatim>\<open>acquire\<close> continues with its loop; the promise of a sleeping \<^verbatim>\<open>acquireAsync\<close>
  is resolved.
\<close>

fun wake :: "frame \<Rightarrow> frame" where
  "wake (Frame m num Waiting) = (if m = AcquireAsync then Frame m num Woken else Frame m num Load)"
| "wake f = f"

definition Atomics_notify :: "agent list \<Rightarrow> agent list" where
  "Atomics_notify as =
     map (\<lambda>a. a\<lparr>running := map_option wake (running a), parked := map wake (parked a)\<rparr>) as"

text \<open>One atomic step of the body that agent \<open>i\<close> is executing.\<close>

definition step :: "nat \<Rightarrow> system \<Rightarrow> system" where
  "step i s =
     (if i < length (agents s) then
        (case running (agents s ! i) of
           None \<Rightarrow> s
         | Some (Frame m num p) \<Rightarrow>
             (case p of
                Load \<Rightarrow>
                  put i ((agents s ! i)\<lparr>running := Some (Frame m num (Loaded (Atomics_load (cell s))))\<rparr>) s
              | Loaded available \<Rightarrow>
                  if m = Release then release_attempt i num available s
                  else acquire_attempt i m num available s
              | Waiting \<Rightarrow> s
              | Woken \<Rightarrow> s
              | Notify \<Rightarrow>
                  (let s' = s\<lparr>agents := Atomics_notify (agents s)\<rparr>
                   in put i ((agents s' ! i)\<lparr>running := None\<rparr>) s')))
      else s)"

text \<open>A free context takes up a suspended \<^verbatim>\<open>acquireAsync\<close> whose awaited value has settled:
  the body goes on after the \<^verbatim>\<open>await\<close>, that is with \<^verbatim>\<open>continue\<close>.\<close>

definition resume :: "nat \<Rightarrow> nat \<Rightarrow> system \<Rightarrow> system" where
  "resume i k s =
     (if i < length (agents s) then
        (let this = agents s ! i in
         if running this = None \<and> k < length (parked this) then
           (case parked this ! k of
              Frame m num Woken \<Rightarrow>
                put i (this\<lparr>running := Some (Frame m num Load),
                            parked := take k (parked this) @ drop (Suc k) (parked this)\<rparr>) s
            | _ \<Rightarrow> s)
         else s)
      else s)"

text \<open>Another context wraps the shared element in an object of its own (constructor,
  line 33: \<^verbatim>\<open>this._acquiredPermits = 0\<close>).\<close>

definition construct :: "system \<Rightarrow> system" where
  "construct s = s\<lparr>agents := agents s @ [\<lparr>acquired = 0, running = None, parked = []\<rparr>]\<rparr>"

definition boot :: "Semaphore \<Rightarrow> system" where
  "boot this =
     \<lparr>cell = Int32Array_get (priv_int32Array this) 0,
      agents = [\<lparr>acquired = priv_acquiredPermits this, running = None, parked = []\<rparr>],
      history = []\<rparr>"

text \<open>
  A schedule is a list of actions; any interleaving of the contexts is a schedule. \<open>Wake\<close>
  is a notification that comes from outside the semaphore (the buffer is shared, and anyone
  who holds it may call \<^verbatim>\<open>Atomics.notify\<close>) or a wait that ends for no reason.
\<close>

datatype action = Construct | Invoke nat operation int | Step nat | Resume nat nat | Wake

fun exec :: "action \<Rightarrow> system \<Rightarrow> system" where
  "exec Construct s = construct s"
| "exec (Invoke i m num) s = fst (invoke i m num s)"
| "exec (Step i) s = step i s"
| "exec (Resume i k) s = resume i k s"
| "exec Wake s = s\<lparr>agents := Atomics_notify (agents s)\<rparr>"

definition run :: "action list \<Rightarrow> system \<Rightarrow> system" where
  "run acts s = fold exec acts s"

fun well_behaved :: "action \<Rightarrow> bool" where
  "well_behaved (Invoke i m num) = (1 \<le> num)"
| "well_behaved a = True"

text \<open>
  A whole call with nobody interfering: enter, then the steps of the body. Undisturbed, a
  body needs at most three steps (load, compare-and-exchange, notify) to return or to fall
  asleep; \<open>call_quiescent\<close> below shows that a fourth step changes nothing.
\<close>

datatype outcome = Throws error | Returns | Blocks | Pending | Refused

definition settle :: "nat \<Rightarrow> system \<Rightarrow> system" where
  "settle i s = step i (step i (step i s))"

definition call :: "nat \<Rightarrow> operation \<Rightarrow> int \<Rightarrow> system \<Rightarrow> system \<times> outcome" where
  "call i m num s =
     (if i < length (agents s) \<and> running (agents s ! i) = None then
        (case invoke i m num s of
           (s', Some e) \<Rightarrow> (s', Throws e)
         | (s', None) \<Rightarrow>
             (let s'' = settle i s' in
              (s'', if running (agents s'' ! i) \<noteq> None then Blocks
                    else if length (parked (agents s'' ! i)) > length (parked (agents s ! i))
                    then Pending else Returns)))
      else (s, Refused))"

text \<open>The three methods of the source, as whole undisturbed calls by agent \<open>i\<close>. (A call
  without an argument is a call with \<^verbatim>\<open>num = 1\<close>, the default of all three.)\<close>

abbreviation acquire :: "nat \<Rightarrow> int \<Rightarrow> system \<Rightarrow> system \<times> outcome" where
  "acquire i num s \<equiv> call i Acquire num s"

abbreviation release :: "nat \<Rightarrow> int \<Rightarrow> system \<Rightarrow> system \<times> outcome" where
  "release i num s \<equiv> call i Release num s"

abbreviation acquireAsync :: "nat \<Rightarrow> int \<Rightarrow> system \<Rightarrow> system \<times> outcome" where
  "acquireAsync i num s \<equiv> call i AcquireAsync num s"

text \<open>The permits outstanding according to a history: taken minus given back.\<close>

fun net :: "event list \<Rightarrow> int" where
  "net [] = 0"
| "net (Acquired i n # es) = net es + n"
| "net (Released i n # es) = net es - n"

fun net_of :: "nat \<Rightarrow> event list \<Rightarrow> int" where
  "net_of j [] = 0"
| "net_of j (Acquired i n # es) = (if i = j then net_of j es + n else net_of j es)"
| "net_of j (Released i n # es) = (if i = j then net_of j es - n else net_of j es)"

text \<open>A system begins with \<^verbatim>\<open>fromCapacity\<close>: the element it allocated and the one object
  it returned.\<close>

definition start :: "int \<Rightarrow> error + system" where
  "start permits = (case fromCapacity permits of Inl e \<Rightarrow> Inl e | Inr this \<Rightarrow> Inr (boot this))"

section \<open>Invariants of the protocol\<close>

text \<open>A value obtained from \<^verbatim>\<open>Atomics.load\<close> lies in the range of a signed 32-bit integer.\<close>

definition in_int32 :: "int \<Rightarrow> bool" where
  "in_int32 a \<longleftrightarrow> - (2 ^ 31) \<le> a \<and> a < 2 ^ 31"

fun frame_sane :: "frame \<Rightarrow> bool" where
  "frame_sane (Frame m num (Loaded available)) = in_int32 available"
| "frame_sane f = True"

definition agent_sane :: "agent \<Rightarrow> bool" where
  "agent_sane a \<longleftrightarrow>
     (case running a of None \<Rightarrow> True | Some f \<Rightarrow> frame_sane f) \<and> list_all frame_sane (parked a)"

text \<open>
  Solvency, for a system in which every call asks for at least one permit, begun on an
  element that held \<open>C\<close>: the counters are not negative, the element is not negative (or not
  below \<open>C\<close>, should \<open>C\<close> be negative), element plus counters is \<open>C\<close>, and the counters
  together are what the history says was taken and not given back.
  A \<^verbatim>\<open>release\<close> that passed its check and has not yet exchanged gives back no more than
  its object holds; only \<^verbatim>\<open>acquireAsync\<close> bodies are ever suspended.
\<close>

fun frame_fit :: "int \<Rightarrow> frame \<Rightarrow> bool" where
  "frame_fit k (Frame m num p) =
     (1 \<le> num \<and> frame_sane (Frame m num p) \<and> (m = Release \<and> p \<noteq> Notify \<longrightarrow> num \<le> k))"

fun parked_fit :: "frame \<Rightarrow> bool" where
  "parked_fit (Frame m num p) = (1 \<le> num \<and> frame_sane (Frame m num p) \<and> m \<noteq> Release)"

definition agent_fit :: "agent \<Rightarrow> bool" where
  "agent_fit a \<longleftrightarrow>
     0 \<le> acquired a \<and>
     (case running a of None \<Rightarrow> True | Some f \<Rightarrow> frame_fit (acquired a) f) \<and>
     list_all parked_fit (parked a)"

definition outstanding :: "system \<Rightarrow> int" where
  "outstanding s = sum_list (map acquired (agents s))"

definition solvent :: "int \<Rightarrow> system \<Rightarrow> bool" where
  "solvent C s \<longleftrightarrow>
     in_int32 C \<and> min 0 C \<le> sint (cell s) \<and> sint (cell s) + outstanding s = C \<and>
     net (history s) = outstanding s \<and> list_all agent_fit (agents s)"

text \<open>The books: every object's counter is what the history says that object took and gave
  back; the history names only objects that exist.\<close>

fun owner :: "event \<Rightarrow> nat" where
  "owner (Acquired i n) = i"
| "owner (Released i n) = i"

definition books :: "system \<Rightarrow> bool" where
  "books s \<longleftrightarrow>
     (\<forall>j < length (agents s). acquired (agents s ! j) = net_of j (history s)) \<and>
     list_all (\<lambda>e. owner e < length (agents s)) (history s)"

text \<open>
  Tidiness, for a system in which no \<^verbatim>\<open>acquireAsync\<close> is called with a negative number (the
  other two methods may be called with any): the counters are not negative.
\<close>

fun considerate :: "action \<Rightarrow> bool" where
  "considerate (Invoke i m num) = (m = AcquireAsync \<longrightarrow> 0 \<le> num)"
| "considerate a = True"

fun frame_tidy :: "int \<Rightarrow> frame \<Rightarrow> bool" where
  "frame_tidy k (Frame m num p) = (if m = Release then p \<noteq> Notify \<longrightarrow> num \<le> k else 0 \<le> num)"

fun parked_tidy :: "frame \<Rightarrow> bool" where
  "parked_tidy (Frame m num p) = (m \<noteq> Release \<and> 0 \<le> num)"

definition agent_tidy :: "agent \<Rightarrow> bool" where
  "agent_tidy a \<longleftrightarrow>
     0 \<le> acquired a \<and>
     (case running a of None \<Rightarrow> True | Some f \<Rightarrow> frame_tidy (acquired a) f) \<and>
     list_all parked_tidy (parked a)"

definition tidy :: "system \<Rightarrow> bool" where
  "tidy s \<longleftrightarrow> list_all agent_tidy (agents s)"

section \<open>Doubles\<close>

declare bitlen.simps [simp del]

lemma bitlen_numeral [simp]:
  "bitlen 0 = 0" "bitlen 1 = 1" "bitlen (Suc 0) = 1"
  "bitlen (numeral (Num.Bit0 n)) = Suc (bitlen (numeral n))"
  "bitlen (numeral (Num.Bit1 n)) = Suc (bitlen (numeral n))"
  by (simp_all add: bitlen.simps [of "numeral (Num.Bit0 n)"] bitlen.simps [of "numeral (Num.Bit1 n)"]
      bitlen.simps [of 0] bitlen.simps [of 1] bitlen.simps [of "Suc 0"])

lemma double_exact: "\<bar>x\<bar> \<le> 2 ^ 53 \<Longrightarrow> double x = x"
  by (simp add: double_def)

lemma js_add_exact: "\<bar>a + b\<bar> \<le> 2 ^ 53 \<Longrightarrow> js_add a b = a + b"
  by (simp add: js_add_def double_exact)

lemma js_sub_exact: "\<bar>a - b\<bar> \<le> 2 ^ 53 \<Longrightarrow> js_sub a b = a - b"
  by (simp add: js_sub_def double_exact)

lemma double_nonneg:
  assumes "0 \<le> x"
  shows "0 \<le> double x"
proof (cases "\<bar>x\<bar> \<le> 2 ^ 53")
  case True
  then show ?thesis using assms by (simp add: double_def)
next
  case False
  have "0 \<le> x div 2 ^ k" for k :: nat
    using assms by (simp add: pos_imp_zdiv_nonneg_iff)
  then show ?thesis
    using assms False by (simp add: double_def Let_def)
qed

text \<open>Rounding at work: \<open>2^53 + 1\<close> is no double, and the tie goes to the even significand.\<close>

lemma double_rounds:
  "double 9007199254740993 = 9007199254740992"
  "double (- 9007199254740993) = - 9007199254740992"
  "double 9007199254740994 = 9007199254740994"
  "double 9007199254740995 = 9007199254740996"
  by (simp_all add: double_def Let_def)

section \<open>Construction\<close>

lemma int32_of_bytes_int32_bytes: "int32_of_bytes (int32_bytes w True) = w"
proof -
  have "ucast (ucast w :: byte) OR push_bit 8 (ucast (ucast (drop_bit 8 w) :: byte))
          OR push_bit 16 (ucast (ucast (drop_bit 16 w) :: byte))
          OR push_bit 24 (ucast (ucast (drop_bit 24 w) :: byte)) = w"
  proof (rule bit_word_eqI)
    fix n :: nat
    assume "n < LENGTH(32)"
    then have n: "n < 32" by simp
    consider "n < 8" | "8 \<le> n" "n < 16" | "16 \<le> n" "n < 24" | "24 \<le> n"
      by linarith
    then show "bit (ucast (ucast w :: byte) OR push_bit 8 (ucast (ucast (drop_bit 8 w) :: byte))
          OR push_bit 16 (ucast (ucast (drop_bit 16 w) :: byte))
          OR push_bit 24 (ucast (ucast (drop_bit 24 w) :: byte)) :: int32) n = bit w n"
      using n by cases (auto simp add: bit_simps)
  qed
  then show ?thesis by (simp add: int32_bytes_def)
qed

lemma fromCapacity_eq:
  "fromCapacity permits =
     Inr \<lparr>priv_acquiredPermits = 0,
          priv_int32Array = \<lparr>buffer = \<lparr>kind = SharedArrayBuffer,
                                        bytes = int32_bytes (ToInt32 permits) True\<rparr>,
                             byteOffset = 0, length' = 1\<rparr>\<rparr>"
  by (simp add: fromCapacity_def new_SharedArrayBuffer_def DataView_setInt32_def
      new_Int32Array_def new_Semaphore_def int32_bytes_def)

lemma fromCapacity_cell:
  "fromCapacity permits = Inr sem \<Longrightarrow> Int32Array_get (priv_int32Array sem) 0 = ToInt32 permits"
proof -
  assume "fromCapacity permits = Inr sem"
  then have "bytes (buffer (priv_int32Array sem)) = int32_bytes (ToInt32 permits) True"
    and "byteOffset (priv_int32Array sem) = 0"
    by (auto simp add: fromCapacity_eq)
  moreover have "length (int32_bytes (ToInt32 permits) True) = 4"
    by (simp add: int32_bytes_def)
  ultimately show ?thesis
    by (simp add: Int32Array_get_def int32_of_bytes_int32_bytes)
qed

lemma sint_ToInt32: "- (2 ^ 31) \<le> v \<Longrightarrow> v < 2 ^ 31 \<Longrightarrow> sint (ToInt32 v) = v"
  unfolding ToInt32_def by (simp add: sint_sbintrunc' signed_take_bit_int_eq_self)

text \<open>
  C8. The constructor fails with \<open>InvalidBackingStore\<close> on a view whose buffer is not a
  SharedArrayBuffer, with \<open>InvalidLength\<close> on a view of a SharedArrayBuffer whose length is
  not one; when it succeeds the new object has acquired no permit and holds the view it was
  given, bytes untouched.
\<close>

theorem constructor_validation:
  "(kind (buffer a) \<noteq> SharedArrayBuffer \<longrightarrow> new_Semaphore a = Inl InvalidBackingStore) \<and>
   (kind (buffer a) = SharedArrayBuffer \<and> length' a \<noteq> 1 \<longrightarrow> new_Semaphore a = Inl InvalidLength) \<and>
   (new_Semaphore a = Inr sem \<longrightarrow>
      acquiredPermits sem = 0 \<and> priv_int32Array sem = a \<and>
      kind (buffer a) = SharedArrayBuffer \<and> length' a = 1)"
  by (auto simp add: new_Semaphore_def acquiredPermits_def split: if_splits)

theorem constructor_validation_witness:
  "new_Semaphore \<lparr>buffer = \<lparr>kind = ArrayBuffer, bytes = [0, 0, 0, 0]\<rparr>, byteOffset = 0, length' = 1\<rparr>
     = Inl InvalidBackingStore \<and>
   new_Semaphore \<lparr>buffer = \<lparr>kind = SharedArrayBuffer, bytes = [0, 0, 0, 0, 0, 0, 0, 0]\<rparr>,
                  byteOffset = 0, length' = 2\<rparr> = Inl InvalidLength \<and>
   (\<exists>sem. new_Semaphore \<lparr>buffer = \<lparr>kind = SharedArrayBuffer, bytes = [7, 0, 0, 0]\<rparr>,
                           byteOffset = 0, length' = 1\<rparr> = Inr sem \<and>
           acquiredPermits sem = 0 \<and> availablePermits sem = 7)"
proof -
  let ?p = "\<lparr>buffer = \<lparr>kind = ArrayBuffer, bytes = [0, 0, 0, 0]\<rparr>, byteOffset = 0, length' = 1\<rparr>"
  let ?l = "\<lparr>buffer = \<lparr>kind = SharedArrayBuffer, bytes = [0, 0, 0, 0, 0, 0, 0, 0]\<rparr>,
             byteOffset = 0, length' = 2\<rparr>"
  let ?g = "\<lparr>buffer = \<lparr>kind = SharedArrayBuffer, bytes = [7, 0, 0, 0]\<rparr>,
             byteOffset = 0, length' = 1\<rparr>"
  let ?s = "\<lparr>priv_acquiredPermits = 0, priv_int32Array = ?g\<rparr>"
  have 1: "new_Semaphore ?p = Inl InvalidBackingStore"
    using constructor_validation [of ?p] by simp
  have 2: "new_Semaphore ?l = Inl InvalidLength"
    using constructor_validation [of ?l] by simp
  have g: "new_Semaphore ?g = Inr ?s"
    by (simp add: new_Semaphore_def)
  have 3: "acquiredPermits ?s = 0"
    using constructor_validation [of ?g ?s] g by simp
  have 4: "availablePermits ?s = 7"
    by (simp add: availablePermits_def Int32Array_get_def Atomics_load_def)
  from 1 2 g 3 4 show ?thesis by blast
qed

text \<open>
  C9. For a capacity that fits a signed 32-bit integer and is not negative,
  \<^verbatim>\<open>fromCapacity\<close> returns a semaphore whose \<^verbatim>\<open>availablePermits\<close> is the capacity and whose
  \<^verbatim>\<open>acquiredPermits\<close> is zero: the little-endian bytes written through the DataView are read
  back as the same number through the Int32Array.
\<close>

theorem fromCapacity_roundtrip:
  assumes "0 \<le> permits" and "permits < 2 ^ 31"
  shows "\<exists>sem. fromCapacity permits = Inr sem \<and>
           availablePermits sem = permits \<and> acquiredPermits sem = 0"
proof -
  obtain sem where sem: "fromCapacity permits = Inr sem"
    by (simp add: fromCapacity_eq)
  have "availablePermits sem = sint (ToInt32 permits)"
    using fromCapacity_cell [OF sem] by (simp add: availablePermits_def Atomics_load_def)
  also have "\<dots> = permits"
    using assms by (intro sint_ToInt32) simp_all
  finally have "availablePermits sem = permits" .
  moreover have "acquiredPermits sem = 0"
    using sem by (auto simp add: fromCapacity_eq acquiredPermits_def)
  ultimately show ?thesis using sem by blast
qed

theorem fromCapacity_roundtrip_witness:
  "(0::int) \<le> 258 \<and> (258::int) < 2 ^ 31 \<and>
   (\<exists>sem. fromCapacity 258 = Inr sem \<and> availablePermits sem = 258 \<and> acquiredPermits sem = 0) \<and>
   map_sum id (\<lambda>sem. bytes (buffer (priv_int32Array sem))) (fromCapacity 258)
     = Inr [2, 1, 0, 0]"
proof -
  have a: "(0::int) \<le> 258" and b: "(258::int) < 2 ^ 31" by simp_all
  have "map_sum id (\<lambda>sem. bytes (buffer (priv_int32Array sem))) (fromCapacity 258)
     = Inr [2, 1, 0, 0]"
    by (simp add: fromCapacity_eq int32_bytes_def ToInt32_def)
  with a b fromCapacity_roundtrip [OF a b] show ?thesis by blast
qed

lemma start_eq:
  "start permits = Inr \<lparr>cell = ToInt32 permits,
      agents = [\<lparr>acquired = 0, running = None, parked = []\<rparr>], history = []\<rparr>"
proof -
  obtain sem where sem: "fromCapacity permits = Inr sem"
    by (simp add: fromCapacity_eq)
  have "priv_acquiredPermits sem = 0"
    using sem by (auto simp add: fromCapacity_eq)
  then show ?thesis
    using fromCapacity_cell [OF sem] by (simp add: start_def sem boot_def)
qed

section \<open>Single calls, undisturbed\<close>

lemma ToInt32_sint: "ToInt32 (sint c) = c"
  by (simp add: ToInt32_def)

lemma cas_hit: "Atomics_compareExchange c (sint c) r = (sint c, ToInt32 r)"
  by (simp add: Atomics_compareExchange_def ToInt32_sint)

lemma wait_same: "Atomics_wait c (sint c) = Sleeps"
  by (simp add: Atomics_wait_def ToInt32_sint)

lemma put_same: "put i (agents s ! i) s = s"
  by (simp add: put_def)

lemma step_Load:
  assumes "i < length (agents s)" and "running (agents s ! i) = Some (Frame m num Load)"
  shows "step i s = put i ((agents s ! i)\<lparr>running := Some (Frame m num (Loaded (sint (cell s))))\<rparr>) s"
  using assms by (simp add: step_def Atomics_load_def)

lemma step_acquire_hit:
  assumes "i < length (agents s)" and "running (agents s ! i) = Some (Frame m num (Loaded (sint (cell s))))"
    and "m \<noteq> Release" and "num \<le> sint (cell s)"
  shows "step i s = put i ((agents s ! i)\<lparr>acquired := js_add (acquired (agents s ! i)) num, running := None\<rparr>)
                (s\<lparr>cell := ToInt32 (js_sub (sint (cell s)) num), history := Acquired i num # history s\<rparr>)"
  using assms by (simp add: step_def acquire_attempt_def cas_hit Let_def)

lemma step_idle:
  "running (agents s ! i) = None \<Longrightarrow> step i s = s"
  by (simp add: step_def)

lemma call_acquire_enough:
  assumes i: "i < length (agents s)" and idle: "running (agents s ! i) = None"
    and m: "m = Acquire \<and> 1 \<le> num \<or> m = AcquireAsync" and enough: "num \<le> sint (cell s)"
  shows "call i m num s =
           (put i ((agents s ! i)\<lparr>acquired := js_add (acquired (agents s ! i)) num, running := None\<rparr>)
              (s\<lparr>cell := ToInt32 (js_sub (sint (cell s)) num), history := Acquired i num # history s\<rparr>),
            Returns)"
proof -
  let ?a = "agents s ! i"
  have inv: "invoke i m num s = (put i (?a\<lparr>running := Some (Frame m num Load)\<rparr>) s, None)"
    using i idle m by (auto simp add: invoke_def enter_def)
  let ?s1 = "put i (?a\<lparr>running := Some (Frame m num Load)\<rparr>) s"
  let ?s2 = "put i (?a\<lparr>running := Some (Frame m num (Loaded (sint (cell s))))\<rparr>) s"
  let ?s3 = "put i (?a\<lparr>acquired := js_add (acquired ?a) num, running := None\<rparr>)
              (s\<lparr>cell := ToInt32 (js_sub (sint (cell s)) num), history := Acquired i num # history s\<rparr>)"
  have 1: "step i ?s1 = ?s2"
    using i by (subst step_Load [where m = m and num = num]) (simp_all add: put_def)
  have 2: "step i ?s2 = ?s3"
    using i m enough idle by (subst step_acquire_hit [where m = m and num = num]) (auto simp add: put_def)
  have 3: "step i ?s3 = ?s3"
    using i idle by (intro step_idle) (simp add: put_def)
  have "settle i ?s1 = ?s3"
    by (simp only: settle_def 1 2 3)
  moreover have "running (agents ?s3 ! i) = None" "parked (agents ?s3 ! i) = parked ?a"
    using i idle by (simp_all add: put_def)
  ultimately show ?thesis
    using i idle by (simp add: call_def inv)
qed


lemma step_acquire_short:
  assumes "i < length (agents s)" and "running (agents s ! i) = Some (Frame m num (Loaded (sint (cell s))))"
    and "m \<noteq> Release" and "sint (cell s) < num"
  shows "step i s =
     (if m = AcquireAsync
      then put i ((agents s ! i)\<lparr>running := None, parked := parked (agents s ! i) @ [Frame m num Waiting]\<rparr>) s
      else put i ((agents s ! i)\<lparr>running := Some (Frame m num Waiting)\<rparr>) s)"
  using assms by (simp add: step_def acquire_attempt_def wait_same Let_def)

lemma step_Waiting:
  "running (agents s ! i) = Some (Frame m num Waiting) \<Longrightarrow> step i s = s"
  by (simp add: step_def)

lemma step_release_hit:
  assumes "i < length (agents s)"
    and "running (agents s ! i) = Some (Frame Release num (Loaded (sint (cell s))))"
  shows "step i s =
     put i ((agents s ! i)\<lparr>acquired := js_sub (acquired (agents s ! i)) num,
                            running := Some (Frame Release num Notify)\<rparr>)
       (s\<lparr>cell := ToInt32 (js_add (sint (cell s)) num), history := Released i num # history s\<rparr>)"
  using assms by (simp add: step_def release_attempt_def cas_hit Let_def)

lemma step_Notify:
  assumes "i < length (agents s)" and "running (agents s ! i) = Some (Frame m num Notify)"
  shows "step i s = put i ((Atomics_notify (agents s) ! i)\<lparr>running := None\<rparr>)
                      (s\<lparr>agents := Atomics_notify (agents s)\<rparr>)"
  using assms by (simp add: step_def Let_def)

lemma length_Atomics_notify [simp]: "length (Atomics_notify as) = length as"
  by (simp add: Atomics_notify_def)

lemma acquired_Atomics_notify [simp]:
  "j < length as \<Longrightarrow> acquired (Atomics_notify as ! j) = acquired (as ! j)"
  by (simp add: Atomics_notify_def)

lemma parked_Atomics_notify:
  "j < length as \<Longrightarrow> parked (Atomics_notify as ! j) = map wake (parked (as ! j))"
  by (simp add: Atomics_notify_def)

lemma call_acquire_short:
  assumes i: "i < length (agents s)" and idle: "running (agents s ! i) = None"
    and m: "m = Acquire \<and> 1 \<le> num \<or> m = AcquireAsync" and short: "sint (cell s) < num"
  shows "call i m num s =
     (if m = AcquireAsync
      then (put i ((agents s ! i)\<lparr>running := None, parked := parked (agents s ! i) @ [Frame m num Waiting]\<rparr>) s, Pending)
      else (put i ((agents s ! i)\<lparr>running := Some (Frame m num Waiting)\<rparr>) s, Blocks))"
proof -
  let ?a = "agents s ! i"
  have inv: "invoke i m num s = (put i (?a\<lparr>running := Some (Frame m num Load)\<rparr>) s, None)"
    using i idle m by (auto simp add: invoke_def enter_def)
  let ?s1 = "put i (?a\<lparr>running := Some (Frame m num Load)\<rparr>) s"
  let ?s2 = "put i (?a\<lparr>running := Some (Frame m num (Loaded (sint (cell s))))\<rparr>) s"
  let ?s3 = "if m = AcquireAsync
      then put i (?a\<lparr>running := None, parked := parked ?a @ [Frame m num Waiting]\<rparr>) s
      else put i (?a\<lparr>running := Some (Frame m num Waiting)\<rparr>) s"
  have 1: "step i ?s1 = ?s2"
    using i by (subst step_Load [where m = m and num = num]) (simp_all add: put_def)
  have 2: "step i ?s2 = ?s3"
    using i m short idle by (subst step_acquire_short [where m = m and num = num]) (auto simp add: put_def)
  have 3: "step i ?s3 = ?s3"
  proof (cases "m = AcquireAsync")
    case True
    then show ?thesis using i by (simp add: step_idle put_def)
  next
    case False
    then show ?thesis using i by (simp add: step_Waiting [where m = m and num = num] put_def)
  qed
  have "settle i ?s1 = ?s3"
    by (simp only: settle_def 1 2 3)
  then show ?thesis
    using i idle by (auto simp add: call_def inv put_def)
qed

lemma call_release_ok:
  assumes i: "i < length (agents s)" and idle: "running (agents s ! i) = None"
    and le: "num \<le> acquired (agents s ! i)"
  shows "release i num s =
     (put i ((Atomics_notify (agents s) ! i)\<lparr>acquired := js_sub (acquired (agents s ! i)) num, running := None\<rparr>)
       (s\<lparr>cell := ToInt32 (js_add (sint (cell s)) num), agents := Atomics_notify (agents s),
          history := Released i num # history s\<rparr>), Returns)"
proof -
  let ?a = "agents s ! i"
  have inv: "invoke i Release num s = (put i (?a\<lparr>running := Some (Frame Release num Load)\<rparr>) s, None)"
    using i idle le by (auto simp add: invoke_def enter_def)
  let ?s1 = "put i (?a\<lparr>running := Some (Frame Release num Load)\<rparr>) s"
  let ?s2 = "put i (?a\<lparr>running := Some (Frame Release num (Loaded (sint (cell s))))\<rparr>) s"
  let ?s3 = "put i (?a\<lparr>acquired := js_sub (acquired ?a) num, running := Some (Frame Release num Notify)\<rparr>)
       (s\<lparr>cell := ToInt32 (js_add (sint (cell s)) num), history := Released i num # history s\<rparr>)"
  let ?s4 = "put i ((Atomics_notify (agents s) ! i)\<lparr>acquired := js_sub (acquired (agents s ! i)) num, running := None\<rparr>)
       (s\<lparr>cell := ToInt32 (js_add (sint (cell s)) num), agents := Atomics_notify (agents s),
          history := Released i num # history s\<rparr>)"
  have 1: "step i ?s1 = ?s2"
    using i by (subst step_Load [where m = Release and num = num]) (simp_all add: put_def)
  have 2: "step i ?s2 = ?s3"
    using i by (subst step_release_hit [where num = num]) (simp_all add: put_def)
  have 3: "step i ?s3 = ?s4"
    using i idle
    apply (subst step_Notify [where m = Release and num = num])
      apply (simp_all add: put_def)
    apply (cases "agents s ! i")
    apply (simp add: Atomics_notify_def map_update)
    done
  have "settle i ?s1 = ?s4"
    by (simp only: settle_def 1 2 3)
  moreover have "running (agents ?s4 ! i) = None"
    using i idle by (simp add: put_def)
  moreover have "length (parked (agents ?s4 ! i)) = length (parked ?a)"
    using i by (simp add: put_def parked_Atomics_notify)
  ultimately show ?thesis
    using i idle by (simp add: call_def inv)
qed

lemma sint_bounds: "- (2 ^ 31) \<le> sint (c :: int32)" "sint (c :: int32) < 2 ^ 31"
  using sint_ge [of c] sint_lt [of c] by simp_all

lemma ToInt32_add: "ToInt32 (sint c + n) = c + ToInt32 n"
  by (simp add: ToInt32_def)

lemma ToInt32_diff: "ToInt32 (sint c - n) = c - ToInt32 n"
  by (simp add: ToInt32_def)

lemma call_acquire_nonpositive:
  assumes "i < length (agents s)" and "running (agents s ! i) = None" and "num \<le> 0"
  shows "acquire i num s = (s, Throws InvalidArgument)"
  using assms by (simp add: call_def invoke_def enter_def put_same)

lemma call_release_excess:
  assumes "i < length (agents s)" and "running (agents s ! i) = None"
    and "num > acquired (agents s ! i)"
  shows "release i num s = (s, Throws OverRelease)"
  using assms by (simp add: call_def invoke_def enter_def put_same)

text \<open>After a call a further step of the caller changes nothing: the body has returned or
  thrown, or it sleeps. Three steps are enough.\<close>

lemma call_quiescent:
  assumes i: "i < length (agents s)" and idle: "running (agents s ! i) = None"
  shows "step i (fst (call i m num s)) = fst (call i m num s)"
proof (cases m)
  case Acquire
  show ?thesis
  proof (cases "num \<le> 0")
    case True
    then show ?thesis
      using Acquire idle by (simp add: call_acquire_nonpositive [OF i idle] step_idle)
  next
    case False
    then have m: "m = Acquire \<and> 1 \<le> num \<or> m = AcquireAsync" using Acquire by simp
    show ?thesis
    proof (cases "num \<le> sint (cell s)")
      case True
      then show ?thesis
        using i by (simp add: call_acquire_enough [OF i idle m] step_idle put_def)
    next
      case False
      then have "call i m num s =
          (put i ((agents s ! i)\<lparr>running := Some (Frame m num Waiting)\<rparr>) s, Blocks)"
        using call_acquire_short [OF i idle m] Acquire by simp
      then show ?thesis
        using i by (simp add: step_Waiting [where m = m and num = num] put_def)
    qed
  qed
next
  case Release
  show ?thesis
  proof (cases "num \<le> acquired (agents s ! i)")
    case True
    then show ?thesis
      using i Release by (simp add: call_release_ok [OF i idle] step_idle put_def)
  next
    case False
    then show ?thesis
      using Release idle by (simp add: call_release_excess [OF i idle] step_idle)
  qed
next
  case AcquireAsync
  then have m: "m = Acquire \<and> 1 \<le> num \<or> m = AcquireAsync" by simp
  show ?thesis
  proof (cases "num \<le> sint (cell s)")
    case True
    then show ?thesis
      using i by (simp add: call_acquire_enough [OF i idle m] step_idle put_def)
  next
    case False
    then have "call i m num s =
        (put i ((agents s ! i)\<lparr>running := None,
                  parked := parked (agents s ! i) @ [Frame m num Waiting]\<rparr>) s, Pending)"
      using call_acquire_short [OF i idle m] AcquireAsync by simp
    then show ?thesis
      using i by (simp add: step_idle put_def)
  qed
qed

lemmas machine_defs = call_def invoke_def enter_def put_def settle_def step_def acquire_attempt_def
  release_attempt_def Atomics_load_def Atomics_compareExchange_def Atomics_wait_def
  Atomics_notify_def ToInt32_def resume_def construct_def run_def Let_def js_add_def js_sub_def
  double_def

text \<open>
  C7. \<^verbatim>\<open>acquire(num)\<close> with \<open>num \<le> 0\<close> throws \<open>InvalidArgument\<close> at once; the element,
  the counter of the object and everything else stay as they were.
\<close>

theorem acquire_rejects_nonpositive:
  assumes "i < length (agents s)" and "running (agents s ! i) = None" and "num \<le> 0"
  shows "invoke i Acquire num s = (s, Some InvalidArgument) \<and>
         acquire i num s = (s, Throws InvalidArgument)"
  using assms by (simp add: call_def invoke_def enter_def put_same)

theorem acquire_rejects_nonpositive_witness:
  "acquire 0 0
     \<lparr>cell = 3, agents = [\<lparr>acquired = 2, running = None, parked = []\<rparr>], history = []\<rparr>
     = (\<lparr>cell = 3, agents = [\<lparr>acquired = 2, running = None, parked = []\<rparr>], history = []\<rparr>,
        Throws InvalidArgument) \<and>
   acquire 0 (- 5)
     \<lparr>cell = 3, agents = [\<lparr>acquired = 2, running = None, parked = []\<rparr>], history = []\<rparr>
     = (\<lparr>cell = 3, agents = [\<lparr>acquired = 2, running = None, parked = []\<rparr>], history = []\<rparr>,
        Throws InvalidArgument)"
  using
    acquire_rejects_nonpositive [of 0
      "\<lparr>cell = 3, agents = [\<lparr>acquired = 2, running = None, parked = []\<rparr>], history = []\<rparr>" 0]
    acquire_rejects_nonpositive [of 0
      "\<lparr>cell = 3, agents = [\<lparr>acquired = 2, running = None, parked = []\<rparr>], history = []\<rparr>" "- 5"]
  by simp

text \<open>
  C5. \<^verbatim>\<open>release(num)\<close> with \<open>num\<close> above the counter of the object throws \<open>OverRelease\<close> at
  once; the counter, the element and everything else stay as they were.
\<close>

theorem release_rejects_excess:
  assumes "i < length (agents s)" and "running (agents s ! i) = None"
    and "num > acquired (agents s ! i)"
  shows "invoke i Release num s = (s, Some OverRelease) \<and>
         release i num s = (s, Throws OverRelease)"
  using assms by (simp add: call_def invoke_def enter_def put_same)

theorem release_rejects_excess_witness:
  "release 0 3
     \<lparr>cell = 1, agents = [\<lparr>acquired = 2, running = None, parked = []\<rparr>], history = []\<rparr>
     = (\<lparr>cell = 1, agents = [\<lparr>acquired = 2, running = None, parked = []\<rparr>], history = []\<rparr>,
        Throws OverRelease) \<and>
   release 0 1
     \<lparr>cell = 0, agents = [\<lparr>acquired = 0, running = None, parked = []\<rparr>], history = []\<rparr>
     = (\<lparr>cell = 0, agents = [\<lparr>acquired = 0, running = None, parked = []\<rparr>], history = []\<rparr>,
        Throws OverRelease)"
  using
    release_rejects_excess [of 0
      "\<lparr>cell = 1, agents = [\<lparr>acquired = 2, running = None, parked = []\<rparr>], history = []\<rparr>" 3]
    release_rejects_excess [of 0
      "\<lparr>cell = 0, agents = [\<lparr>acquired = 0, running = None, parked = []\<rparr>], history = []\<rparr>" 1]
  by simp

lemma invoke_acquireAsync_accepts: "snd (invoke i AcquireAsync num s) = None"
  by (simp add: invoke_def enter_def)

text \<open>
  C1. \<^verbatim>\<open>acquireAsync\<close> has no check of its argument: entering it never throws, whatever
  \<open>num\<close> is. On a semaphore of capacity one, \<^verbatim>\<open>acquireAsync(-1)\<close> is taken up, returns, leaves
  the element at two and the counter at minus one; \<^verbatim>\<open>acquireAsync(0)\<close> returns as well.
  \<^verbatim>\<open>acquire(-1)\<close> in the same state throws.
\<close>

theorem acquireAsync_takes_nonpositive:
  "(\<forall>i num s. snd (invoke i AcquireAsync num s) = None) \<and>
   start 1 = Inr \<lparr>cell = 1, agents = [\<lparr>acquired = 0, running = None, parked = []\<rparr>], history = []\<rparr> \<and>
   acquireAsync 0 (- 1)
     \<lparr>cell = 1, agents = [\<lparr>acquired = 0, running = None, parked = []\<rparr>], history = []\<rparr>
     = (\<lparr>cell = 2, agents = [\<lparr>acquired = - 1, running = None, parked = []\<rparr>],
         history = [Acquired 0 (- 1)]\<rparr>, Returns) \<and>
   acquireAsync 0 0
     \<lparr>cell = 1, agents = [\<lparr>acquired = 0, running = None, parked = []\<rparr>], history = []\<rparr>
     = (\<lparr>cell = 1, agents = [\<lparr>acquired = 0, running = None, parked = []\<rparr>],
         history = [Acquired 0 0]\<rparr>, Returns) \<and>
   acquire 0 (- 1)
     \<lparr>cell = 1, agents = [\<lparr>acquired = 0, running = None, parked = []\<rparr>], history = []\<rparr>
     = (\<lparr>cell = 1, agents = [\<lparr>acquired = 0, running = None, parked = []\<rparr>], history = []\<rparr>,
        Throws InvalidArgument)"
proof -
  have "acquireAsync 0 (- 1)
     \<lparr>cell = 1, agents = [\<lparr>acquired = 0, running = None, parked = []\<rparr>], history = []\<rparr>
     = (\<lparr>cell = 2, agents = [\<lparr>acquired = - 1, running = None, parked = []\<rparr>],
         history = [Acquired 0 (- 1)]\<rparr>, Returns)"
    and "acquireAsync 0 0
     \<lparr>cell = 1, agents = [\<lparr>acquired = 0, running = None, parked = []\<rparr>], history = []\<rparr>
     = (\<lparr>cell = 1, agents = [\<lparr>acquired = 0, running = None, parked = []\<rparr>],
         history = [Acquired 0 0]\<rparr>, Returns)"
    and "acquire 0 (- 1)
     \<lparr>cell = 1, agents = [\<lparr>acquired = 0, running = None, parked = []\<rparr>], history = []\<rparr>
     = (\<lparr>cell = 1, agents = [\<lparr>acquired = 0, running = None, parked = []\<rparr>], history = []\<rparr>,
        Throws InvalidArgument)"
    by (simp_all add: machine_defs)
  moreover have "start 1
     = Inr \<lparr>cell = 1, agents = [\<lparr>acquired = 0, running = None, parked = []\<rparr>], history = []\<rparr>"
    by (simp add: start_eq ToInt32_def)
  ultimately show ?thesis
    using invoke_acquireAsync_accepts by blast
qed

section \<open>Solvency\<close>

lemma sum_acquired_update:
  "i < length as \<Longrightarrow>
   sum_list (map acquired (as[i := a])) = sum_list (map acquired as) - acquired (as ! i) + acquired a"
proof (induction as arbitrary: i)
  case Nil
  then show ?case by simp
next
  case (Cons x xs)
  then show ?case by (cases i) simp_all
qed

lemma outstanding_put:
  "i < length (agents s) \<Longrightarrow>
   outstanding (put i a s) = outstanding s - acquired (agents s ! i) + acquired a"
  by (simp add: outstanding_def put_def sum_acquired_update)

lemma acquired_le_sum:
  "list_all (\<lambda>a. 0 \<le> acquired a) as \<Longrightarrow> i < length as \<Longrightarrow>
   acquired (as ! i) \<le> sum_list (map acquired as)"
proof (induction as arbitrary: i)
  case Nil
  then show ?case by simp
next
  case (Cons x xs)
  have nonneg: "0 \<le> sum_list (map acquired xs)"
    using Cons.prems(1) by (intro sum_list_nonneg) (auto simp add: list_all_iff)
  show ?case
  proof (cases i)
    case 0
    then show ?thesis using nonneg by simp
  next
    case (Suc j)
    then have "acquired (xs ! j) \<le> sum_list (map acquired xs)"
      using Cons by simp
    then show ?thesis using Suc Cons.prems(1) by simp
  qed
qed

lemma list_all_update:
  "list_all P xs \<Longrightarrow> P a \<Longrightarrow> list_all P (xs[i := a])"
  using set_update_subset_insert [of xs i a] by (auto simp add: list_all_iff)

lemma list_all_nth: "list_all P xs \<Longrightarrow> i < length xs \<Longrightarrow> P (xs ! i)"
  by (simp add: list_all_length)

lemma frame_sane_wake: "frame_sane f \<Longrightarrow> frame_sane (wake f)"
  by (induction f rule: wake.induct) simp_all

lemma frame_fit_wake: "frame_fit k f \<Longrightarrow> frame_fit k (wake f)"
  by (induction f rule: wake.induct) auto

lemma parked_fit_wake: "parked_fit f \<Longrightarrow> parked_fit (wake f)"
  by (induction f rule: wake.induct) auto

lemma agent_fit_notify:
  "list_all agent_fit as \<Longrightarrow> list_all agent_fit (Atomics_notify as)"
  by (auto simp add: Atomics_notify_def list_all_iff agent_fit_def frame_fit_wake parked_fit_wake
      split: option.splits)

lemma outstanding_notify:
  "sum_list (map acquired (Atomics_notify as)) = sum_list (map acquired as)"
  by (simp add: Atomics_notify_def comp_def)


lemma cas_cases:
  assumes "in_int32 a"
  shows "Atomics_compareExchange c a r = (if sint c = a then (a, ToInt32 r) else (sint c, c))"
proof (cases "sint c = a")
  case True
  then show ?thesis using cas_hit [of c r] by simp
next
  case False
  have "sint (ToInt32 a) = a"
    using assms by (intro sint_ToInt32) (simp_all add: in_int32_def)
  with False have "c \<noteq> ToInt32 a" by auto
  with False show ?thesis by (simp add: Atomics_compareExchange_def)
qed

lemma in_int32_sint: "in_int32 (sint (c :: int32))"
  using sint_bounds [of c] by (simp add: in_int32_def)

lemma solventI:
  assumes "in_int32 C" and "min 0 C \<le> sint (cell s)" and "sint (cell s) + outstanding s = C"
    and "net (history s) = outstanding s" and "list_all agent_fit (agents s)"
  shows "solvent C s"
  using assms by (simp add: solvent_def)

lemma solvent_put_frame:
  assumes inv: "solvent C s" and i: "i < length (agents s)"
    and a: "acquired a = acquired (agents s ! i)" and fit: "agent_fit a"
  shows "solvent C (put i a s)"
proof (rule solventI)
  show "in_int32 C" using inv by (simp add: solvent_def)
  show "min 0 C \<le> sint (cell (put i a s))" using inv by (simp add: solvent_def put_def)
  show "sint (cell (put i a s)) + outstanding (put i a s) = C"
    using inv i a by (simp add: outstanding_put) (simp add: solvent_def put_def)
  show "net (history (put i a s)) = outstanding (put i a s)"
    using inv i a by (simp add: outstanding_put) (simp add: solvent_def put_def)
  show "list_all agent_fit (agents (put i a s))"
    using inv fit by (simp add: put_def solvent_def list_all_update)
qed

lemma solvent_agent: "solvent C s \<Longrightarrow> i < length (agents s) \<Longrightarrow> agent_fit (agents s ! i)"
  by (simp add: solvent_def list_all_nth)

text \<open>In a solvent system no counter is negative, and none exceeds what the element has
  given out; so every counter is below \<open>2^32\<close>, and the arithmetic on it is exact.\<close>

lemma solvent_counter:
  assumes inv: "solvent C s" and i: "i < length (agents s)"
  shows "0 \<le> acquired (agents s ! i)" "sint (cell s) + acquired (agents s ! i) \<le> C"
    "acquired (agents s ! i) < 2 ^ 32"
proof -
  show 0: "0 \<le> acquired (agents s ! i)"
    using solvent_agent [OF inv i] by (simp add: agent_fit_def)
  have "acquired (agents s ! i) \<le> outstanding s"
    unfolding outstanding_def
  proof (rule acquired_le_sum [OF _ i])
    show "list_all (\<lambda>a. 0 \<le> acquired a) (agents s)"
      using inv by (auto simp add: solvent_def list_all_iff agent_fit_def)
  qed
  then show 1: "sint (cell s) + acquired (agents s ! i) \<le> C"
    using inv by (simp add: solvent_def)
  show "acquired (agents s ! i) < 2 ^ 32"
    using 1 inv sint_bounds [of "cell s"] by (simp add: solvent_def in_int32_def)
qed

lemma solvent_acquire_attempt:
  assumes inv: "solvent C s" and i: "i < length (agents s)"
    and run: "running (agents s ! i) = Some (Frame m num (Loaded a))" and m: "m \<noteq> Release"
  shows "solvent C (acquire_attempt i m num a s)"
proof -
  let ?me = "agents s ! i"
  have fit: "agent_fit ?me" by (rule solvent_agent [OF inv i])
  then have num: "1 \<le> num" and a: "in_int32 a" and acq: "0 \<le> acquired ?me"
    and parked: "list_all parked_fit (parked ?me)"
    using run by (simp_all add: agent_fit_def)
  show ?thesis
  proof (cases "a < num")
    case True
    have "agent_fit (?me\<lparr>running := None, parked := parked ?me @ [Frame m num p]\<rparr>)"
      if "p = Woken \<or> p = Waiting" for p
      using that acq parked num m by (auto simp add: agent_fit_def)
    moreover have "agent_fit (?me\<lparr>running := Some (Frame m num p)\<rparr>)"
      if "p = Load \<or> p = Waiting" for p
      using that acq parked num m by (auto simp add: agent_fit_def)
    ultimately show ?thesis
      using True inv i
      by (auto simp add: acquire_attempt_def Let_def split: wait_result.splits
          intro!: solvent_put_frame)
  next
    case False
    show ?thesis
    proof (cases "sint (cell s) = a")
      case hit: True
      let ?s' = "s\<lparr>cell := ToInt32 (a - num), history := Acquired i num # history s\<rparr>"
      let ?a' = "?me\<lparr>acquired := acquired ?me + num, running := None\<rparr>"
      have bounds: "0 \<le> a - num" "a - num < 2 ^ 31"
        using False num a by (simp_all add: in_int32_def)
      then have sub: "js_sub a num = a - num"
        by (intro js_sub_exact) simp
      have "acquired ?me + num < 2 ^ 33"
        using solvent_counter(3) [OF inv i] a False by (simp add: in_int32_def)
      then have add: "js_add (acquired ?me) num = acquired ?me + num"
        using acq num by (intro js_add_exact) simp
      have eq: "acquire_attempt i m num a s = put i ?a' ?s'"
        using False hit by (simp add: acquire_attempt_def Let_def cas_cases [OF a] sub add)
      have cell': "sint (ToInt32 (a - num)) = a - num"
        using bounds by (intro sint_ToInt32) simp_all
      have "solvent C (put i ?a' ?s')"
      proof (rule solventI)
        show "in_int32 C" using inv by (simp add: solvent_def)
        show "min 0 C \<le> sint (cell (put i ?a' ?s'))"
          using bounds cell' by (simp add: put_def)
        have "outstanding (put i ?a' ?s') = outstanding ?s' - acquired ?me + acquired ?a'"
          using i by (subst outstanding_put) simp_all
        moreover have "outstanding ?s' = outstanding s"
          by (simp add: outstanding_def)
        ultimately have out: "outstanding (put i ?a' ?s') = outstanding s + num"
          by simp
        show "sint (cell (put i ?a' ?s')) + outstanding (put i ?a' ?s') = C"
          using inv hit cell' by (simp add: out) (simp add: put_def solvent_def)
        show "net (history (put i ?a' ?s')) = outstanding (put i ?a' ?s')"
          using inv by (simp add: out) (simp add: put_def solvent_def)
        have "agent_fit ?a'"
          using acq parked num by (simp add: agent_fit_def)
        then show "list_all agent_fit (agents (put i ?a' ?s'))"
          using inv by (simp add: put_def solvent_def list_all_update)
      qed
      then show ?thesis by (simp add: eq)
    next
      case miss: False
      have eq: "acquire_attempt i m num a s = put i (?me\<lparr>running := Some (Frame m num Load)\<rparr>) s"
        using False miss by (simp add: acquire_attempt_def Let_def cas_cases [OF a])
      have "agent_fit (?me\<lparr>running := Some (Frame m num Load)\<rparr>)"
        using acq parked num m by (simp add: agent_fit_def)
      then show ?thesis
        unfolding eq using inv i by (intro solvent_put_frame) simp_all
    qed
  qed
qed


lemma solvent_release_attempt:
  assumes inv: "solvent C s" and i: "i < length (agents s)"
    and run: "running (agents s ! i) = Some (Frame Release num (Loaded a))"
  shows "solvent C (release_attempt i num a s)"
proof -
  let ?me = "agents s ! i"
  have fit: "agent_fit ?me" by (rule solvent_agent [OF inv i])
  then have num: "1 \<le> num" and a: "in_int32 a" and acq: "0 \<le> acquired ?me"
    and le: "num \<le> acquired ?me" and parked: "list_all parked_fit (parked ?me)"
    using run by (simp_all add: agent_fit_def)
  show ?thesis
  proof (cases "sint (cell s) = a")
    case hit: True
    let ?s' = "s\<lparr>cell := ToInt32 (a + num), history := Released i num # history s\<rparr>"
    let ?a' = "?me\<lparr>acquired := acquired ?me - num, running := Some (Frame Release num Notify)\<rparr>"
    have "a + num \<le> C"
      using le hit solvent_counter(2) [OF inv i] by simp
    moreover have "min 0 C \<le> a"
      using inv hit by (simp add: solvent_def)
    ultimately have bounds: "min 0 C \<le> a + num" "- (2 ^ 31) \<le> a + num" "a + num < 2 ^ 31"
      using num inv by (simp_all add: solvent_def in_int32_def)
    then have add: "js_add a num = a + num"
      by (intro js_add_exact) simp
    have "acquired ?me - num < 2 ^ 32"
      using solvent_counter(3) [OF inv i] num by simp
    then have sub: "js_sub (acquired ?me) num = acquired ?me - num"
      using le by (intro js_sub_exact) simp
    have eq: "release_attempt i num a s = put i ?a' ?s'"
      using hit by (simp add: release_attempt_def Let_def cas_cases [OF a] sub add)
    have cell': "sint (ToInt32 (a + num)) = a + num"
      using bounds by (intro sint_ToInt32) simp_all
    have "solvent C (put i ?a' ?s')"
    proof (rule solventI)
      show "in_int32 C" using inv by (simp add: solvent_def)
      show "min 0 C \<le> sint (cell (put i ?a' ?s'))"
        using bounds cell' by (simp add: put_def)
      have "outstanding (put i ?a' ?s') = outstanding ?s' - acquired ?me + acquired ?a'"
        using i by (subst outstanding_put) simp_all
      moreover have "outstanding ?s' = outstanding s"
        by (simp add: outstanding_def)
      ultimately have out: "outstanding (put i ?a' ?s') = outstanding s - num"
        by simp
      show "sint (cell (put i ?a' ?s')) + outstanding (put i ?a' ?s') = C"
        using inv hit cell' by (simp add: out) (simp add: put_def solvent_def)
      show "net (history (put i ?a' ?s')) = outstanding (put i ?a' ?s')"
        using inv by (simp add: out) (simp add: put_def solvent_def)
      have "agent_fit ?a'"
        using le parked num by (simp add: agent_fit_def)
      then show "list_all agent_fit (agents (put i ?a' ?s'))"
        using inv by (simp add: put_def solvent_def list_all_update)
    qed
    then show ?thesis by (simp add: eq)
  next
    case miss: False
    have eq: "release_attempt i num a s = put i (?me\<lparr>running := Some (Frame Release num Load)\<rparr>) s"
      using miss by (simp add: release_attempt_def Let_def cas_cases [OF a])
    have "agent_fit (?me\<lparr>running := Some (Frame Release num Load)\<rparr>)"
      using acq parked num le by (simp add: agent_fit_def)
    then show ?thesis
      unfolding eq using inv i by (intro solvent_put_frame) simp_all
  qed
qed

lemma solvent_notify:
  assumes inv: "solvent C s"
  shows "solvent C (s\<lparr>agents := Atomics_notify (agents s)\<rparr>)"
  using inv by (simp add: solvent_def outstanding_def outstanding_notify agent_fit_notify)

lemma solvent_step:
  assumes inv: "solvent C s"
  shows "solvent C (step i s)"
proof (cases "i < length (agents s)")
  case False
  then show ?thesis using inv by (simp add: step_def)
next
  case i: True
  let ?me = "agents s ! i"
  have fit: "agent_fit ?me" by (rule solvent_agent [OF inv i])
  show ?thesis
  proof (cases "running ?me")
    case None
    then show ?thesis using inv by (simp add: step_idle)
  next
    case (Some f)
    obtain m num p where f: "f = Frame m num p" by (cases f)
    show ?thesis
    proof (cases p)
      case Load
      have "agent_fit (?me\<lparr>running := Some (Frame m num (Loaded (sint (cell s))))\<rparr>)"
        using fit Some f Load by (auto simp add: agent_fit_def in_int32_sint)
      then have "solvent C (put i (?me\<lparr>running := Some (Frame m num (Loaded (sint (cell s))))\<rparr>) s)"
        using inv i by (intro solvent_put_frame) simp_all
      then show ?thesis
        using i Some f Load by (simp add: step_Load)
    next
      case (Loaded a)
      show ?thesis
      proof (cases "m = Release")
        case True
        then show ?thesis
          using i Some f Loaded solvent_release_attempt [OF inv i, of num a]
          by (simp add: step_def)
      next
        case False
        then show ?thesis
          using i Some f Loaded solvent_acquire_attempt [OF inv i, of m num a]
          by (simp add: step_def)
      qed
    next
      case Waiting
      then show ?thesis using inv i Some f by (simp add: step_def)
    next
      case Woken
      then show ?thesis using inv i Some f by (simp add: step_def)
    next
      case Notify
      let ?s' = "s\<lparr>agents := Atomics_notify (agents s)\<rparr>"
      have inv': "solvent C ?s'" by (rule solvent_notify [OF inv])
      have i': "i < length (agents ?s')" using i by simp
      have fit': "agent_fit (agents ?s' ! i)" by (rule solvent_agent [OF inv' i'])
      have "agent_fit ((agents ?s' ! i)\<lparr>running := None\<rparr>)"
        using fit' by (simp add: agent_fit_def)
      then have "solvent C (put i ((agents ?s' ! i)\<lparr>running := None\<rparr>) ?s')"
        using inv' i' by (intro solvent_put_frame) simp_all
      then show ?thesis
        using i Some f Notify by (simp add: step_def Let_def)
    qed
  qed
qed

lemma solvent_resume:
  assumes inv: "solvent C s"
  shows "solvent C (resume i k s)"
proof (cases "i < length (agents s) \<and> running (agents s ! i) = None \<and> k < length (parked (agents s ! i))")
  case False
  then show ?thesis using inv by (auto simp add: resume_def Let_def)
next
  case True
  let ?me = "agents s ! i"
  have i: "i < length (agents s)" and k: "k < length (parked ?me)" using True by simp_all
  have fit: "agent_fit ?me" by (rule solvent_agent [OF inv i])
  obtain m num p where f: "parked ?me ! k = Frame m num p" by (cases "parked ?me ! k")
  have pf: "parked_fit (Frame m num p)"
    using fit k f list_all_nth [of parked_fit "parked ?me" k] by (simp add: agent_fit_def)
  show ?thesis
  proof (cases "p = Woken")
    case False
    then show ?thesis using inv True f by (cases p) (simp_all add: resume_def Let_def)
  next
    case Woken: True
    let ?a' = "?me\<lparr>running := Some (Frame m num Load),
                     parked := take k (parked ?me) @ drop (Suc k) (parked ?me)\<rparr>"
    have eq: "resume i k s = put i ?a' s"
      using True f Woken by (simp add: resume_def Let_def)
    have "set (take k (parked ?me) @ drop (Suc k) (parked ?me)) \<subseteq> set (parked ?me)"
      using set_take_subset [of k "parked ?me"] set_drop_subset [of "Suc k" "parked ?me"] by auto
    then have "list_all parked_fit (take k (parked ?me) @ drop (Suc k) (parked ?me))"
      using fit unfolding agent_fit_def list_all_iff by blast
    then have "agent_fit ?a'"
      using fit pf by (simp add: agent_fit_def)
    then show ?thesis
      unfolding eq using inv i by (intro solvent_put_frame) simp_all
  qed
qed

lemma solvent_construct:
  assumes inv: "solvent C s"
  shows "solvent C (construct s)"
  using inv by (simp add: solvent_def construct_def outstanding_def agent_fit_def)

lemma solvent_invoke:
  assumes inv: "solvent C s" and num: "1 \<le> num"
  shows "solvent C (fst (invoke i m num s))"
proof (cases "i < length (agents s) \<and> running (agents s ! i) = None")
  case False
  then show ?thesis using inv by (auto simp add: invoke_def)
next
  case True
  let ?me = "agents s ! i"
  have i: "i < length (agents s)" using True by simp
  have fit: "agent_fit ?me" by (rule solvent_agent [OF inv i])
  have "agent_fit (fst (enter m num ?me)) \<and> acquired (fst (enter m num ?me)) = acquired ?me"
    using fit num True by (cases m) (auto simp add: enter_def agent_fit_def)
  then have "solvent C (put i (fst (enter m num ?me)) s)"
    using inv i by (intro solvent_put_frame) simp_all
  then show ?thesis
    using True by (simp add: invoke_def split_beta)
qed

lemma solvent_exec:
  assumes "solvent C s" and "well_behaved a"
  shows "solvent C (exec a s)"
  using assms
  by (cases a)
    (simp_all add: solvent_construct solvent_invoke solvent_step solvent_resume solvent_notify)

lemma solvent_run:
  assumes "solvent C s" and "list_all well_behaved acts"
  shows "solvent C (run acts s)"
  using assms unfolding run_def
  by (induction acts arbitrary: s) (simp_all add: solvent_exec)

lemma solvent_boot:
  assumes "new_Semaphore a = Inr sem"
  shows "solvent (availablePermits sem) (boot sem)"
proof -
  have "priv_acquiredPermits sem = 0"
    using assms by (auto simp add: new_Semaphore_def split: if_splits)
  moreover have "sint (cell (boot sem)) = availablePermits sem"
    by (simp add: boot_def availablePermits_def Atomics_load_def)
  ultimately show ?thesis
    using in_int32_sint [of "cell (boot sem)"]
    by (simp add: solvent_def outstanding_def agent_fit_def boot_def)
qed

lemma solvent_start:
  assumes "0 \<le> c" and "c < 2 ^ 31" and "start c = Inr s"
  shows "solvent c s"
proof -
  have "sint (ToInt32 c) = c"
    using assms by (intro sint_ToInt32) simp_all
  then show ?thesis
    using assms
    by (auto simp add: start_eq solvent_def outstanding_def agent_fit_def in_int32_def)
qed

text \<open>
  C2. A system begun by \<^verbatim>\<open>fromCapacity(c)\<close> with \<open>0 \<le> c < 2^31\<close>, any number of objects
  constructed on its element, and any schedule of calls that each ask for at least one permit:
  the element is never negative, at whatever point of whatever interleaving. (A \<^verbatim>\<open>release\<close>
  above the counter of its object throws and changes nothing, so every release that goes
  through is within the counter.)
\<close>

theorem cell_never_negative:
  assumes "0 \<le> c" and "c < 2 ^ 31" and "start c = Inr s" and "list_all well_behaved acts"
  shows "0 \<le> Atomics_load (cell (run acts s))"
  using solvent_run [OF solvent_start [OF assms(1-3)] assms(4)] assms(1)
  by (simp add: solvent_def Atomics_load_def)

theorem cell_never_negative_witness:
  "(0::int) \<le> 1 \<and> (1::int) < 2 ^ 31 \<and>
   start 1 = Inr \<lparr>cell = 1, agents = [\<lparr>acquired = 0, running = None, parked = []\<rparr>], history = []\<rparr> \<and>
   list_all well_behaved
     [Construct, Invoke 0 AcquireAsync 1, Step 0, Step 0, Invoke 1 Acquire 1, Step 1, Step 1,
      Invoke 0 Release 1, Step 0, Step 0, Step 0, Step 1, Step 1] \<and>
   run [Construct, Invoke 0 AcquireAsync 1, Step 0, Step 0, Invoke 1 Acquire 1, Step 1, Step 1,
        Invoke 0 Release 1, Step 0, Step 0, Step 0, Step 1, Step 1]
     \<lparr>cell = 1, agents = [\<lparr>acquired = 0, running = None, parked = []\<rparr>], history = []\<rparr>
     = \<lparr>cell = 0,
        agents = [\<lparr>acquired = 0, running = None, parked = []\<rparr>,
                  \<lparr>acquired = 1, running = None, parked = []\<rparr>],
        history = [Acquired 1 1, Released 0 1, Acquired 0 1]\<rparr> \<and>
   0 \<le> Atomics_load (cell (run
       [Construct, Invoke 0 AcquireAsync 1, Step 0, Step 0, Invoke 1 Acquire 1, Step 1, Step 1,
        Invoke 0 Release 1, Step 0, Step 0, Step 0, Step 1, Step 1]
       \<lparr>cell = 1, agents = [\<lparr>acquired = 0, running = None, parked = []\<rparr>], history = []\<rparr>))"
proof -
  let ?s = "\<lparr>cell = 1, agents = [\<lparr>acquired = 0, running = None, parked = []\<rparr>], history = []\<rparr>"
  let ?acts = "[Construct, Invoke 0 AcquireAsync 1, Step 0, Step 0, Invoke 1 Acquire 1, Step 1,
      Step 1, Invoke 0 Release 1, Step 0, Step 0, Step 0, Step 1, Step 1]"
  have h: "(0::int) \<le> 1" "(1::int) < 2 ^ 31" "start 1 = Inr ?s" "list_all well_behaved ?acts"
    by (simp_all add: start_eq ToInt32_def)
  have r: "run ?acts ?s = \<lparr>cell = 0,
        agents = [\<lparr>acquired = 0, running = None, parked = []\<rparr>,
                  \<lparr>acquired = 1, running = None, parked = []\<rparr>],
        history = [Acquired 1 1, Released 0 1, Acquired 0 1]\<rparr>"
    by (simp add: machine_defs)
  from cell_never_negative [OF h] h r show ?thesis by blast
qed

text \<open>
  With nothing but \<open>c \<ge> 0\<close> the property fails before the first call: \<^verbatim>\<open>fromCapacity(2147483648)\<close>
  stores the capacity as a signed 32-bit integer, and the element reads \<open>-2147483648\<close>.
\<close>

theorem capacity_wraps_counterexample:
  "(0::int) \<le> 2147483648 \<and>
   start 2147483648
     = Inr \<lparr>cell = - 2147483648, agents = [\<lparr>acquired = 0, running = None, parked = []\<rparr>],
            history = []\<rparr> \<and>
   run [] \<lparr>cell = - 2147483648, agents = [\<lparr>acquired = 0, running = None, parked = []\<rparr>],
            history = []\<rparr>
     = \<lparr>cell = - 2147483648, agents = [\<lparr>acquired = 0, running = None, parked = []\<rparr>],
            history = []\<rparr> \<and>
   Atomics_load (cell \<lparr>cell = - 2147483648,
            agents = [\<lparr>acquired = 0, running = None, parked = []\<rparr>], history = []\<rparr>) < 0 \<and>
   map_sum id availablePermits (fromCapacity 2147483648) = Inr (- 2147483648)"
  by (simp add: start_eq fromCapacity_eq availablePermits_def Int32Array_get_def int32_bytes_def
      machine_defs)

section \<open>The round trip\<close>

text \<open>
  C3. Round trip. On the element of a constructed semaphore that begins at \<open>C\<close>, after any
  schedule of calls that each ask for at least one permit, by any number of objects and
  under any interleaving, whenever the permits taken by the successful calls have all been
  given back (the history nets to zero) the element is exactly \<open>C\<close>.
\<close>

theorem round_trip_conservation:
  assumes "new_Semaphore a = Inr sem" and "availablePermits sem = C"
    and "list_all well_behaved acts" and "net (history (run acts (boot sem))) = 0"
  shows "Atomics_load (cell (run acts (boot sem))) = C"
proof -
  have "solvent (availablePermits sem) (run acts (boot sem))"
    by (rule solvent_run [OF solvent_boot [OF assms(1)] assms(3)])
  then show ?thesis
    using assms(2,4) by (simp add: solvent_def Atomics_load_def)
qed

theorem round_trip_conservation_witness:
  "new_Semaphore \<lparr>buffer = \<lparr>kind = SharedArrayBuffer, bytes = [2, 0, 0, 0]\<rparr>,
                  byteOffset = 0, length' = 1\<rparr>
     = Inr \<lparr>priv_acquiredPermits = 0,
         priv_int32Array = \<lparr>buffer = \<lparr>kind = SharedArrayBuffer, bytes = [2, 0, 0, 0]\<rparr>,
                            byteOffset = 0, length' = 1\<rparr>\<rparr> \<and>
   availablePermits \<lparr>priv_acquiredPermits = 0,
      priv_int32Array = \<lparr>buffer = \<lparr>kind = SharedArrayBuffer, bytes = [2, 0, 0, 0]\<rparr>,
                         byteOffset = 0, length' = 1\<rparr>\<rparr> = 2 \<and>
   fromCapacity 2 = Inr \<lparr>priv_acquiredPermits = 0,
      priv_int32Array = \<lparr>buffer = \<lparr>kind = SharedArrayBuffer, bytes = [2, 0, 0, 0]\<rparr>,
                         byteOffset = 0, length' = 1\<rparr>\<rparr> \<and>
   list_all well_behaved
     [Construct, Invoke 0 Acquire 2, Step 0, Invoke 1 AcquireAsync 1, Step 1, Step 0,
      Step 1, Invoke 0 Release 1, Step 0, Step 0, Step 0, Resume 1 0, Step 1, Step 1,
      Invoke 0 Release 1, Step 0, Step 0, Step 0, Invoke 1 Release 1, Step 1, Step 1,
      Step 1] \<and>
   history (run [Construct, Invoke 0 Acquire 2, Step 0, Invoke 1 AcquireAsync 1, Step 1, Step 0,
                 Step 1, Invoke 0 Release 1, Step 0, Step 0, Step 0, Resume 1 0, Step 1, Step 1,
                 Invoke 0 Release 1, Step 0, Step 0, Step 0, Invoke 1 Release 1, Step 1, Step 1,
                 Step 1]
      (boot \<lparr>priv_acquiredPermits = 0,
         priv_int32Array = \<lparr>buffer = \<lparr>kind = SharedArrayBuffer, bytes = [2, 0, 0, 0]\<rparr>,
                            byteOffset = 0, length' = 1\<rparr>\<rparr>))
     = [Released 1 1, Released 0 1, Acquired 1 1, Released 0 1, Acquired 0 2] \<and>
   Atomics_load (cell (run [Construct, Invoke 0 Acquire 2, Step 0, Invoke 1 AcquireAsync 1, Step 1,
                 Step 0, Step 1, Invoke 0 Release 1, Step 0, Step 0, Step 0, Resume 1 0, Step 1,
                 Step 1, Invoke 0 Release 1, Step 0, Step 0, Step 0, Invoke 1 Release 1, Step 1,
                 Step 1, Step 1]
      (boot \<lparr>priv_acquiredPermits = 0,
         priv_int32Array = \<lparr>buffer = \<lparr>kind = SharedArrayBuffer, bytes = [2, 0, 0, 0]\<rparr>,
                            byteOffset = 0, length' = 1\<rparr>\<rparr>))) = 2"
proof -
  let ?view = "\<lparr>buffer = \<lparr>kind = SharedArrayBuffer, bytes = [2, 0, 0, 0]\<rparr>,
                byteOffset = 0, length' = 1\<rparr>"
  let ?sem = "\<lparr>priv_acquiredPermits = 0, priv_int32Array = ?view\<rparr>"
  let ?acts = "[Construct, Invoke 0 Acquire 2, Step 0, Invoke 1 AcquireAsync 1, Step 1, Step 0,
                 Step 1, Invoke 0 Release 1, Step 0, Step 0, Step 0, Resume 1 0, Step 1, Step 1,
                 Invoke 0 Release 1, Step 0, Step 0, Step 0, Invoke 1 Release 1, Step 1, Step 1,
                 Step 1]"
  have c: "new_Semaphore ?view = Inr ?sem"
    by (simp add: new_Semaphore_def)
  have a: "availablePermits ?sem = 2"
    by (simp add: availablePermits_def Int32Array_get_def Atomics_load_def)
  have f: "fromCapacity 2 = Inr ?sem"
    by (simp add: fromCapacity_eq int32_bytes_def ToInt32_def)
  have w: "list_all well_behaved ?acts"
    by simp
  have b: "boot ?sem
     = \<lparr>cell = 2, agents = [\<lparr>acquired = 0, running = None, parked = []\<rparr>], history = []\<rparr>"
    by (simp add: boot_def Int32Array_get_def)
  have h: "history (run ?acts (boot ?sem))
     = [Released 1 1, Released 0 1, Acquired 1 1, Released 0 1, Acquired 0 2]"
    unfolding b by (simp add: machine_defs)
  then have n: "net (history (run ?acts (boot ?sem))) = 0"
    by simp
  from round_trip_conservation [OF c a w n] c a f w h show ?thesis by blast
qed

section \<open>What a successful call does\<close>

text \<open>Whatever the calls, a value that a body holds from \<^verbatim>\<open>Atomics.load\<close> is a signed 32-bit
  integer.\<close>

lemma agent_sane_notify:
  "list_all agent_sane as \<Longrightarrow> list_all agent_sane (Atomics_notify as)"
  by (auto simp add: Atomics_notify_def list_all_iff agent_sane_def frame_sane_wake
      split: option.splits)

lemma sane_put:
  assumes "list_all agent_sane (agents s)" and "agent_sane a"
  shows "list_all agent_sane (agents (put i a s))"
  using assms by (simp add: put_def list_all_update)

lemma sane_acquire_attempt:
  assumes inv: "list_all agent_sane (agents s)" and i: "i < length (agents s)"
  shows "list_all agent_sane (agents (acquire_attempt i m num a s))"
proof -
  let ?me = "agents s ! i"
  have parked: "list_all frame_sane (parked ?me)"
    using list_all_nth [OF inv i] by (simp add: agent_sane_def)
  have 1: "agent_sane (?me\<lparr>running := None, parked := parked ?me @ [Frame m num p]\<rparr>)"
    if "p = Woken \<or> p = Waiting" for p
    using that parked by (auto simp add: agent_sane_def)
  have 2: "agent_sane (?me\<lparr>running := Some (Frame m num p)\<rparr>)"
    if "p = Load \<or> p = Waiting" for p
    using that parked by (auto simp add: agent_sane_def)
  have 3: "agent_sane (?me\<lparr>acquired := x, running := None\<rparr>)" for x
    using parked by (simp add: agent_sane_def)
  show ?thesis
    using inv 1 2 3
    by (auto simp add: acquire_attempt_def Let_def put_def list_all_update split_beta
        split: wait_result.splits)
qed

lemma sane_release_attempt:
  assumes inv: "list_all agent_sane (agents s)" and i: "i < length (agents s)"
  shows "list_all agent_sane (agents (release_attempt i num a s))"
proof -
  let ?me = "agents s ! i"
  have parked: "list_all frame_sane (parked ?me)"
    using list_all_nth [OF inv i] by (simp add: agent_sane_def)
  have 1: "agent_sane (?me\<lparr>acquired := x, running := Some (Frame Release num Notify)\<rparr>)" for x
    using parked by (simp add: agent_sane_def)
  have 2: "agent_sane (?me\<lparr>running := Some (Frame Release num Load)\<rparr>)"
    using parked by (simp add: agent_sane_def)
  show ?thesis
    using inv 1 2
    by (auto simp add: release_attempt_def Let_def put_def list_all_update split_beta)
qed

lemma sane_step:
  assumes inv: "list_all agent_sane (agents s)"
  shows "list_all agent_sane (agents (step i s))"
proof (cases "i < length (agents s)")
  case False
  then show ?thesis using inv by (simp add: step_def)
next
  case i: True
  let ?me = "agents s ! i"
  have sane: "agent_sane ?me" by (rule list_all_nth [OF inv i])
  show ?thesis
  proof (cases "running ?me")
    case None
    then show ?thesis using inv by (simp add: step_idle)
  next
    case (Some f)
    obtain m num p where f: "f = Frame m num p" by (cases f)
    show ?thesis
    proof (cases p)
      case Load
      have "agent_sane (?me\<lparr>running := Some (Frame m num (Loaded (sint (cell s))))\<rparr>)"
        using sane by (auto simp add: agent_sane_def in_int32_sint)
      then have "list_all agent_sane
          (agents (put i (?me\<lparr>running := Some (Frame m num (Loaded (sint (cell s))))\<rparr>) s))"
        using inv by (intro sane_put)
      then show ?thesis
        using i Some f Load by (simp add: step_Load)
    next
      case (Loaded a)
      then show ?thesis
        using i Some f sane_release_attempt [OF inv i, of num a]
          sane_acquire_attempt [OF inv i, of m num a]
        by (simp add: step_def)
    next
      case Waiting
      then show ?thesis using inv i Some f by (simp add: step_def)
    next
      case Woken
      then show ?thesis using inv i Some f by (simp add: step_def)
    next
      case Notify
      let ?s' = "s\<lparr>agents := Atomics_notify (agents s)\<rparr>"
      have inv': "list_all agent_sane (agents ?s')"
        using inv by (simp add: agent_sane_notify)
      have i': "i < length (agents ?s')" using i by simp
      have "agent_sane ((agents ?s' ! i)\<lparr>running := None\<rparr>)"
        using list_all_nth [OF inv' i'] by (simp add: agent_sane_def)
      then have "list_all agent_sane (agents (put i ((agents ?s' ! i)\<lparr>running := None\<rparr>) ?s'))"
        using inv' by (intro sane_put)
      then show ?thesis
        using i Some f Notify by (simp add: step_def Let_def)
    qed
  qed
qed

lemma sane_resume:
  assumes inv: "list_all agent_sane (agents s)"
  shows "list_all agent_sane (agents (resume i k s))"
proof (cases "i < length (agents s) \<and> running (agents s ! i) = None \<and> k < length (parked (agents s ! i))")
  case False
  then show ?thesis using inv by (auto simp add: resume_def Let_def)
next
  case True
  let ?me = "agents s ! i"
  have i: "i < length (agents s)" and k: "k < length (parked ?me)" using True by simp_all
  have sane: "agent_sane ?me" by (rule list_all_nth [OF inv i])
  obtain m num p where f: "parked ?me ! k = Frame m num p" by (cases "parked ?me ! k")
  show ?thesis
  proof (cases "p = Woken")
    case False
    then show ?thesis using inv True f by (cases p) (simp_all add: resume_def Let_def)
  next
    case Woken: True
    let ?a' = "?me\<lparr>running := Some (Frame m num Load),
                     parked := take k (parked ?me) @ drop (Suc k) (parked ?me)\<rparr>"
    have eq: "resume i k s = put i ?a' s"
      using True f Woken by (simp add: resume_def Let_def)
    have "set (take k (parked ?me) @ drop (Suc k) (parked ?me)) \<subseteq> set (parked ?me)"
      using set_take_subset [of k "parked ?me"] set_drop_subset [of "Suc k" "parked ?me"] by auto
    then have "list_all frame_sane (take k (parked ?me) @ drop (Suc k) (parked ?me))"
      using sane unfolding agent_sane_def list_all_iff by blast
    then have "agent_sane ?a'"
      by (simp add: agent_sane_def)
    then show ?thesis
      unfolding eq using inv by (intro sane_put)
  qed
qed

lemma sane_invoke:
  assumes inv: "list_all agent_sane (agents s)"
  shows "list_all agent_sane (agents (fst (invoke i m num s)))"
proof (cases "i < length (agents s) \<and> running (agents s ! i) = None")
  case False
  then show ?thesis using inv by (auto simp add: invoke_def)
next
  case True
  let ?me = "agents s ! i"
  have i: "i < length (agents s)" using True by simp
  have "agent_sane (fst (enter m num ?me))"
    using list_all_nth [OF inv i] True by (cases m) (auto simp add: enter_def agent_sane_def)
  then have "list_all agent_sane (agents (put i (fst (enter m num ?me)) s))"
    using inv by (intro sane_put)
  then show ?thesis
    using True by (simp add: invoke_def split_beta)
qed

lemma sane_exec:
  "list_all agent_sane (agents s) \<Longrightarrow> list_all agent_sane (agents (exec a s))"
  by (cases a)
    (simp_all add: construct_def agent_sane_def sane_invoke sane_step sane_resume
      agent_sane_notify)

lemma sane_run:
  "list_all agent_sane (agents s) \<Longrightarrow> list_all agent_sane (agents (run acts s))"
  unfolding run_def by (induction acts arbitrary: s) (simp_all add: sane_exec)

lemma reachable_sane: "list_all agent_sane (agents (run acts (boot sem)))"
  by (rule sane_run) (simp add: boot_def agent_sane_def)

text \<open>What one step can do to the element, the counters and the history.\<close>

lemma acquire_attempt_effect:
  assumes i: "i < length (agents s)" and a: "in_int32 a"
  shows "(if num \<le> a \<and> sint (cell s) = a
          then cell (acquire_attempt i m num a s) = ToInt32 (js_sub (sint (cell s)) num) \<and>
               history (acquire_attempt i m num a s) = Acquired i num # history s \<and>
               map acquired (agents (acquire_attempt i m num a s))
                 = (map acquired (agents s))[i := js_add (acquired (agents s ! i)) num] \<and>
               running (agents (acquire_attempt i m num a s) ! i) = None \<and>
               parked (agents (acquire_attempt i m num a s) ! i) = parked (agents s ! i)
          else cell (acquire_attempt i m num a s) = cell s \<and>
               history (acquire_attempt i m num a s) = history s \<and>
               map acquired (agents (acquire_attempt i m num a s)) = map acquired (agents s))"
proof (cases "num \<le> a \<and> sint (cell s) = a")
  case True
  then show ?thesis
    using i by (simp add: acquire_attempt_def Let_def cas_cases [OF a] put_def map_update)
next
  case False
  have same: "(map acquired (agents s))[i := acquired (agents s ! i)] = map acquired (agents s)"
    using i by (simp add: list_update_same_conv)
  show ?thesis
    using False i same
    by (auto simp add: acquire_attempt_def Let_def cas_cases [OF a] put_def map_update
        split: wait_result.splits)
qed

lemma release_attempt_effect:
  assumes i: "i < length (agents s)" and a: "in_int32 a"
  shows "(if sint (cell s) = a
          then cell (release_attempt i num a s) = ToInt32 (js_add (sint (cell s)) num) \<and>
               history (release_attempt i num a s) = Released i num # history s \<and>
               map acquired (agents (release_attempt i num a s))
                 = (map acquired (agents s))[i := js_sub (acquired (agents s ! i)) num] \<and>
               running (agents (release_attempt i num a s) ! i) = Some (Frame Release num Notify)
          else cell (release_attempt i num a s) = cell s \<and>
               history (release_attempt i num a s) = history s \<and>
               map acquired (agents (release_attempt i num a s)) = map acquired (agents s))"
proof (cases "sint (cell s) = a")
  case True
  then show ?thesis
    using i by (simp add: release_attempt_def Let_def cas_cases [OF a] put_def map_update)
next
  case False
  have same: "(map acquired (agents s))[i := acquired (agents s ! i)] = map acquired (agents s)"
    using i by (simp add: list_update_same_conv)
  show ?thesis
    using False i same
    by (simp add: release_attempt_def Let_def cas_cases [OF a] put_def map_update)
qed

lemma map_acquired_notify: "map acquired (Atomics_notify as) = map acquired as"
  by (simp add: Atomics_notify_def comp_def)

lemma step_effect:
  assumes sane: "list_all agent_sane (agents s)"
  shows "(history (step i s) = history s \<and> cell (step i s) = cell s \<and>
          map acquired (agents (step i s)) = map acquired (agents s)) \<or>
         (\<exists>m n. i < length (agents s) \<and> m \<noteq> Release \<and>
            running (agents s ! i) = Some (Frame m n (Loaded (sint (cell s)))) \<and>
            n \<le> sint (cell s) \<and>
            history (step i s) = Acquired i n # history s \<and>
            cell (step i s) = ToInt32 (js_sub (sint (cell s)) n) \<and>
            map acquired (agents (step i s))
              = (map acquired (agents s))[i := js_add (acquired (agents s ! i)) n] \<and>
            running (agents (step i s) ! i) = None \<and>
            parked (agents (step i s) ! i) = parked (agents s ! i)) \<or>
         (\<exists>n. i < length (agents s) \<and>
            running (agents s ! i) = Some (Frame Release n (Loaded (sint (cell s)))) \<and>
            history (step i s) = Released i n # history s \<and>
            cell (step i s) = ToInt32 (js_add (sint (cell s)) n) \<and>
            map acquired (agents (step i s))
              = (map acquired (agents s))[i := js_sub (acquired (agents s ! i)) n] \<and>
            running (agents (step i s) ! i) = Some (Frame Release n Notify))"
proof (cases "i < length (agents s)")
  case False
  then show ?thesis by (simp add: step_def)
next
  case i: True
  have same: "(map acquired (agents s))[i := acquired (agents s ! i)] = map acquired (agents s)"
    using i by (simp add: list_update_same_conv)
  show ?thesis
  proof (cases "running (agents s ! i)")
    case None
    then show ?thesis by (simp add: step_idle)
  next
    case (Some f)
    obtain m num p where f: "f = Frame m num p" by (cases f)
    show ?thesis
    proof (cases p)
      case Load
      then show ?thesis
        using i Some f same by (simp add: step_Load put_def map_update)
    next
      case (Loaded a)
      have a: "in_int32 a"
        using list_all_nth [OF sane i] Some f Loaded by (simp add: agent_sane_def)
      show ?thesis
      proof (cases "m = Release")
        case True
        have st: "step i s = release_attempt i num a s"
          using i Some f Loaded True by (simp add: step_def)
        show ?thesis
          using release_attempt_effect [OF i a, of num] i Some f Loaded True
          unfolding st by (cases "sint (cell s) = a") simp_all
      next
        case False
        have st: "step i s = acquire_attempt i m num a s"
          using i Some f Loaded False by (simp add: step_def)
        show ?thesis
          using acquire_attempt_effect [OF i a, of num m] i Some f Loaded False
          unfolding st by (cases "num \<le> a \<and> sint (cell s) = a") auto
      qed
    next
      case Waiting
      then show ?thesis using i Some f by (simp add: step_def)
    next
      case Woken
      then show ?thesis using i Some f by (simp add: step_def)
    next
      case Notify
      have "map acquired ((Atomics_notify (agents s))[i := (Atomics_notify (agents s) ! i)\<lparr>running := None\<rparr>])
              = map acquired (agents s)"
        using i same by (simp add: map_update map_acquired_notify)
      then show ?thesis
        using i Some f Notify by (simp add: step_Notify [where m = m and num = num] put_def)
    qed
  qed
qed

lemma exec_effect:
  assumes sane: "list_all agent_sane (agents s)"
  shows "(history (exec act s) = history s \<and> cell (exec act s) = cell s \<and>
          (\<forall>j < length (agents s). acquired (agents (exec act s) ! j) = acquired (agents s ! j))) \<or>
         (\<exists>i m n. act = Step i \<and> i < length (agents s) \<and> n \<le> sint (cell s) \<and>
            running (agents s ! i) = Some (Frame m n (Loaded (sint (cell s)))) \<and>
            history (exec act s) = Acquired i n # history s \<and>
            cell (exec act s) = ToInt32 (js_sub (sint (cell s)) n) \<and>
            acquired (agents (exec act s) ! i) = js_add (acquired (agents s ! i)) n) \<or>
         (\<exists>i n. act = Step i \<and> i < length (agents s) \<and>
            running (agents s ! i) = Some (Frame Release n (Loaded (sint (cell s)))) \<and>
            history (exec act s) = Released i n # history s \<and>
            cell (exec act s) = ToInt32 (js_add (sint (cell s)) n) \<and>
            acquired (agents (exec act s) ! i) = js_sub (acquired (agents s ! i)) n)"
proof (cases act)
  case Construct
  then show ?thesis by (simp add: construct_def nth_append)
next
  case (Invoke i m num)
  have "acquired (fst (enter m num a)) = acquired a" for a
    by (cases m) (simp_all add: enter_def)
  then have "acquired ((agents s)[i := fst (enter m num (agents s ! i))] ! j) = acquired (agents s ! j)"
    if "j < length (agents s)" for j
    using that by (cases "i = j") simp_all
  then show ?thesis
    using Invoke by (simp add: invoke_def split_beta put_def)
next
  case (Step i)
  have nth: "acquired (agents (step i s) ! j) = map acquired (agents (step i s)) ! j"
    if "j < length (agents (step i s))" for j
    using that by simp
  have len: "length (agents (step i s)) = length (agents s)"
    using step_effect [OF sane, of i] by (metis length_map length_list_update)
  from step_effect [OF sane, of i] show ?thesis
  proof (elim disjE exE conjE)
    assume "history (step i s) = history s" "cell (step i s) = cell s"
      "map acquired (agents (step i s)) = map acquired (agents s)"
    then show ?thesis
      using Step nth len by simp
  next
    fix m n
    assume "i < length (agents s)" "n \<le> sint (cell s)"
      "running (agents s ! i) = Some (Frame m n (Loaded (sint (cell s))))"
      "history (step i s) = Acquired i n # history s"
      "cell (step i s) = ToInt32 (js_sub (sint (cell s)) n)"
      "map acquired (agents (step i s))
         = (map acquired (agents s))[i := js_add (acquired (agents s ! i)) n]"
    then show ?thesis
      using Step nth [of i] len by simp
  next
    fix n
    assume "i < length (agents s)"
      "running (agents s ! i) = Some (Frame Release n (Loaded (sint (cell s))))"
      "history (step i s) = Released i n # history s"
      "cell (step i s) = ToInt32 (js_add (sint (cell s)) n)"
      "map acquired (agents (step i s))
         = (map acquired (agents s))[i := js_sub (acquired (agents s ! i)) n]"
    then show ?thesis
      using Step nth [of i] len by simp
  qed
next
  case (Resume i k)
  have "acquired ((agents s)[i := (agents s ! i)\<lparr>running := r, parked := q\<rparr>] ! j) = acquired (agents s ! j)"
    if "j < length (agents s)" for j r q
    using that by (cases "i = j") simp_all
  then show ?thesis
    using Resume by (simp add: resume_def Let_def put_def split: frame.splits pc.splits)
next
  case Wake
  then show ?thesis by simp
qed

text \<open>In a solvent system the sums and differences of a successful exchange are exact.\<close>

lemma solvent_take:
  assumes inv: "solvent C s" and i: "i < length (agents s)"
    and n: "1 \<le> n" and enough: "n \<le> sint (cell s)"
  shows "js_sub (sint (cell s)) n = sint (cell s) - n"
    "sint (ToInt32 (sint (cell s) - n)) = sint (cell s) - n"
    "js_add (acquired (agents s ! i)) n = acquired (agents s ! i) + n"
proof -
  have bounds: "0 \<le> sint (cell s) - n" "sint (cell s) - n < 2 ^ 31"
    using n enough sint_bounds [of "cell s"] by simp_all
  then show "js_sub (sint (cell s)) n = sint (cell s) - n"
    by (intro js_sub_exact) simp
  show "sint (ToInt32 (sint (cell s) - n)) = sint (cell s) - n"
    using bounds by (intro sint_ToInt32) simp_all
  have "acquired (agents s ! i) + n < 2 ^ 33"
    using solvent_counter(3) [OF inv i] enough sint_bounds [of "cell s"] by simp
  then show "js_add (acquired (agents s ! i)) n = acquired (agents s ! i) + n"
    using solvent_counter(1) [OF inv i] n by (intro js_add_exact) simp
qed

lemma solvent_give:
  assumes inv: "solvent C s" and i: "i < length (agents s)"
    and n: "1 \<le> n" and le: "n \<le> acquired (agents s ! i)"
  shows "js_add (sint (cell s)) n = sint (cell s) + n"
    "sint (ToInt32 (sint (cell s) + n)) = sint (cell s) + n"
    "js_sub (acquired (agents s ! i)) n = acquired (agents s ! i) - n"
proof -
  have "sint (cell s) + n \<le> C"
    using le solvent_counter(2) [OF inv i] by simp
  then have bounds: "- (2 ^ 31) \<le> sint (cell s) + n" "sint (cell s) + n < 2 ^ 31"
    using n inv sint_bounds [of "cell s"] by (simp_all add: solvent_def in_int32_def)
  then show "js_add (sint (cell s)) n = sint (cell s) + n"
    by (intro js_add_exact) simp
  show "sint (ToInt32 (sint (cell s) + n)) = sint (cell s) + n"
    using bounds by (intro sint_ToInt32) simp_all
  have "acquired (agents s ! i) - n < 2 ^ 32"
    using solvent_counter(3) [OF inv i] n by simp
  then show "js_sub (acquired (agents s ! i)) n = acquired (agents s ! i) - n"
    using le by (intro js_sub_exact) simp
qed




text \<open>
  C10. The only check of \<^verbatim>\<open>release(num)\<close> is \<open>num\<close> above the counter of the object: it throws
  exactly then. For every other \<open>num\<close>, zero and negative numbers included, it is taken up
  and, undisturbed, returns. With \<open>num\<close> and the counter at most \<open>2^52\<close> in magnitude, where
  the sum and the difference are exact, the counter goes down by \<open>num\<close> and the element goes
  up by \<open>num\<close> in 32-bit arithmetic: by \<open>num\<close> exactly when element plus \<open>num\<close> is again a
  signed 32-bit integer. So a negative \<open>num\<close> takes permits out of the element and raises the
  counter. Under any interleaving the same holds of the step in which the release succeeds.
\<close>

theorem release_guard_only_upper:
  "(i < length (agents s) \<and> running (agents s ! i) = None \<longrightarrow>
      snd (invoke i Release num s)
        = (if acquired (agents s ! i) < num then Some OverRelease else None) \<and>
      ((snd (release i num s) = Throws OverRelease) = (acquired (agents s ! i) < num)) \<and>
      ((snd (release i num s) = Returns) = (num \<le> acquired (agents s ! i))) \<and>
      (num \<le> acquired (agents s ! i) \<and> \<bar>num\<bar> \<le> 2 ^ 52 \<and> \<bar>acquired (agents s ! i)\<bar> \<le> 2 ^ 52 \<longrightarrow>
         cell (fst (release i num s)) = cell s + ToInt32 num \<and>
         acquired (agents (fst (release i num s)) ! i) = acquired (agents s ! i) - num \<and>
         (in_int32 (Atomics_load (cell s) + num) \<longrightarrow>
            Atomics_load (cell (fst (release i num s))) = Atomics_load (cell s) + num))) \<and>
   (\<forall>acts sem act. s = run acts (boot sem) \<and>
      history (exec act s) = Released i num # history s \<and>
      \<bar>num\<bar> \<le> 2 ^ 52 \<and> \<bar>acquired (agents s ! i)\<bar> \<le> 2 ^ 52 \<longrightarrow>
        cell (exec act s) = cell s + ToInt32 num \<and>
        acquired (agents (exec act s) ! i) = acquired (agents s ! i) - num)"
proof -
  have exact: "js_add (sint (cell s)) num = sint (cell s) + num \<and>
      js_sub (acquired (agents s ! i)) num = acquired (agents s ! i) - num"
    if "\<bar>num\<bar> \<le> 2 ^ 52" and "\<bar>acquired (agents s ! i)\<bar> \<le> 2 ^ 52"
  proof -
    have "\<bar>sint (cell s) + num\<bar> \<le> 2 ^ 53"
      using that(1) sint_bounds [of "cell s"] by simp
    moreover have "\<bar>acquired (agents s ! i) - num\<bar> \<le> 2 ^ 53"
      using that by simp
    ultimately show ?thesis
      by (simp add: js_add_exact js_sub_exact)
  qed
  have undisturbed:
    "snd (invoke i Release num s)
        = (if acquired (agents s ! i) < num then Some OverRelease else None) \<and>
     ((snd (release i num s) = Throws OverRelease) = (acquired (agents s ! i) < num)) \<and>
     ((snd (release i num s) = Returns) = (num \<le> acquired (agents s ! i))) \<and>
     (num \<le> acquired (agents s ! i) \<and> \<bar>num\<bar> \<le> 2 ^ 52 \<and> \<bar>acquired (agents s ! i)\<bar> \<le> 2 ^ 52 \<longrightarrow>
        cell (fst (release i num s)) = cell s + ToInt32 num \<and>
        acquired (agents (fst (release i num s)) ! i) = acquired (agents s ! i) - num \<and>
        (in_int32 (Atomics_load (cell s) + num) \<longrightarrow>
           Atomics_load (cell (fst (release i num s))) = Atomics_load (cell s) + num))"
    if "i < length (agents s) \<and> running (agents s ! i) = None"
  proof -
    from that have i: "i < length (agents s)" and idle: "running (agents s ! i) = None"
      by simp_all
    have guard: "snd (invoke i Release num s)
        = (if acquired (agents s ! i) < num then Some OverRelease else None)"
      using i idle by (simp add: invoke_def enter_def)
    show ?thesis
    proof (cases "num \<le> acquired (agents s ! i)")
      case False
      then show ?thesis using guard by (simp add: call_release_excess [OF i idle])
    next
      case True
      have ret: "snd (release i num s) = Returns"
        by (simp add: call_release_ok [OF i idle True])
      have post: "cell (fst (release i num s)) = cell s + ToInt32 num \<and>
          acquired (agents (fst (release i num s)) ! i) = acquired (agents s ! i) - num \<and>
          (in_int32 (Atomics_load (cell s) + num) \<longrightarrow>
             Atomics_load (cell (fst (release i num s))) = Atomics_load (cell s) + num)"
        if b: "\<bar>num\<bar> \<le> 2 ^ 52" "\<bar>acquired (agents s ! i)\<bar> \<le> 2 ^ 52"
      proof -
        have "sint (ToInt32 (sint (cell s) + num)) = sint (cell s) + num"
          if "in_int32 (sint (cell s) + num)"
          using that by (intro sint_ToInt32) (simp_all add: in_int32_def)
        then show ?thesis
          using i exact [OF b]
          by (simp add: call_release_ok [OF i idle True] put_def ToInt32_add Atomics_load_def)
      qed
      have thrown: "(snd (release i num s) = Throws OverRelease) = (acquired (agents s ! i) < num)"
        using True ret by simp
      have returned: "(snd (release i num s) = Returns) = (num \<le> acquired (agents s ! i))"
        using True ret by simp
      from guard thrown returned post show ?thesis by blast
    qed
  qed
  have disturbed: "cell (exec act s) = cell s + ToInt32 num \<and>
      acquired (agents (exec act s) ! i) = acquired (agents s ! i) - num"
    if "s = run acts (boot sem) \<and> history (exec act s) = Released i num # history s \<and>
        \<bar>num\<bar> \<le> 2 ^ 52 \<and> \<bar>acquired (agents s ! i)\<bar> \<le> 2 ^ 52"
    for acts sem act
  proof -
    have "list_all agent_sane (agents s)"
      using that reachable_sane by simp
    from exec_effect [OF this, of act] that
    have "cell (exec act s) = ToInt32 (js_add (sint (cell s)) num)"
      and "acquired (agents (exec act s) ! i) = js_sub (acquired (agents s ! i)) num"
      by auto
    moreover from that have "\<bar>num\<bar> \<le> 2 ^ 52" and "\<bar>acquired (agents s ! i)\<bar> \<le> 2 ^ 52"
      by blast+
    note exact [OF this]
    ultimately show ?thesis
      by (simp add: ToInt32_add)
  qed
  from undisturbed disturbed show ?thesis by blast
qed

theorem release_guard_only_upper_witness:
  "release 0 (- 1)
     \<lparr>cell = 3, agents = [\<lparr>acquired = 0, running = None, parked = []\<rparr>], history = []\<rparr>
     = (\<lparr>cell = 2, agents = [\<lparr>acquired = 1, running = None, parked = []\<rparr>],
         history = [Released 0 (- 1)]\<rparr>, Returns) \<and>
   - 1 \<le> acquired (agents
       \<lparr>cell = 3, agents = [\<lparr>acquired = 0, running = None, parked = []\<rparr>], history = []\<rparr> ! 0) \<and>
   \<bar>- 1 :: int\<bar> \<le> 2 ^ 52 \<and>
   \<bar>acquired (agents
       \<lparr>cell = 3, agents = [\<lparr>acquired = 0, running = None, parked = []\<rparr>], history = []\<rparr> ! 0)\<bar>
     \<le> 2 ^ 52 \<and>
   in_int32 (Atomics_load (cell
       \<lparr>cell = 3, agents = [\<lparr>acquired = 0, running = None, parked = []\<rparr>], history = []\<rparr>) + - 1) \<and>
   Atomics_load (cell (fst (release 0 (- 1)
       \<lparr>cell = 3, agents = [\<lparr>acquired = 0, running = None, parked = []\<rparr>], history = []\<rparr>))) = 2 \<and>
   acquired (agents (fst (release 0 (- 1)
       \<lparr>cell = 3, agents = [\<lparr>acquired = 0, running = None, parked = []\<rparr>], history = []\<rparr>)) ! 0) = 1 \<and>
   snd (release 0 0
       \<lparr>cell = 3, agents = [\<lparr>acquired = 0, running = None, parked = []\<rparr>], history = []\<rparr>) = Returns \<and>
   run [Invoke 0 Release (- 1), Step 0]
       (boot \<lparr>priv_acquiredPermits = 0,
          priv_int32Array = \<lparr>buffer = \<lparr>kind = SharedArrayBuffer, bytes = [3, 0, 0, 0]\<rparr>,
                             byteOffset = 0, length' = 1\<rparr>\<rparr>)
     = \<lparr>cell = 3,
        agents = [\<lparr>acquired = 0, running = Some (Frame Release (- 1) (Loaded 3)), parked = []\<rparr>],
        history = []\<rparr> \<and>
   exec (Step 0)
     \<lparr>cell = 3,
      agents = [\<lparr>acquired = 0, running = Some (Frame Release (- 1) (Loaded 3)), parked = []\<rparr>],
      history = []\<rparr>
     = \<lparr>cell = 2,
        agents = [\<lparr>acquired = 1, running = Some (Frame Release (- 1) Notify), parked = []\<rparr>],
        history = [Released 0 (- 1)]\<rparr> \<and>
   cell \<lparr>cell = 2,
        agents = [\<lparr>acquired = 1, running = Some (Frame Release (- 1) Notify), parked = []\<rparr>],
        history = [Released 0 (- 1)]\<rparr> = 3 + ToInt32 (- 1)"
proof -
  let ?s = "\<lparr>cell = 3, agents = [\<lparr>acquired = 0, running = None, parked = []\<rparr>], history = []\<rparr>"
  let ?sem = "\<lparr>priv_acquiredPermits = 0,
          priv_int32Array = \<lparr>buffer = \<lparr>kind = SharedArrayBuffer, bytes = [3, 0, 0, 0]\<rparr>,
                             byteOffset = 0, length' = 1\<rparr>\<rparr>"
  let ?p = "\<lparr>cell = 3,
        agents = [\<lparr>acquired = 0, running = Some (Frame Release (- 1) (Loaded 3)), parked = []\<rparr>],
        history = []\<rparr>"
  let ?q = "\<lparr>cell = 2,
        agents = [\<lparr>acquired = 1, running = Some (Frame Release (- 1) Notify), parked = []\<rparr>],
        history = [Released 0 (- 1)]\<rparr>"
  have c: "release 0 (- 1) ?s
     = (\<lparr>cell = 2, agents = [\<lparr>acquired = 1, running = None, parked = []\<rparr>],
         history = [Released 0 (- 1)]\<rparr>, Returns)"
    by (simp add: machine_defs)
  have h: "0 < length (agents ?s) \<and> running (agents ?s ! 0) = None"
    by simp
  have le: "- 1 \<le> acquired (agents ?s ! 0)" and r: "in_int32 (Atomics_load (cell ?s) + - 1)"
    and bn: "\<bar>- 1 :: int\<bar> \<le> 2 ^ 52" and bs: "\<bar>acquired (agents ?s ! 0)\<bar> \<le> 2 ^ 52"
    and bp: "\<bar>acquired (agents ?p ! 0)\<bar> \<le> 2 ^ 52"
    by (simp_all add: in_int32_def Atomics_load_def)
  from release_guard_only_upper [of 0 ?s "- 1"] h le bn bs r
  have "Atomics_load (cell (fst (release 0 (- 1) ?s))) = Atomics_load (cell ?s) + - 1"
    and "acquired (agents (fst (release 0 (- 1) ?s)) ! 0) = acquired (agents ?s ! 0) - - 1"
    by blast+
  then have 1: "Atomics_load (cell (fst (release 0 (- 1) ?s))) = 2"
    and 2: "acquired (agents (fst (release 0 (- 1) ?s)) ! 0) = 1"
    by (simp_all add: Atomics_load_def)
  have 3: "snd (release 0 0 ?s) = Returns"
    using release_guard_only_upper [of 0 ?s 0] h by simp
  have bt: "boot ?sem = ?s"
    by (simp add: boot_def Int32Array_get_def)
  have rp: "run [Invoke 0 Release (- 1), Step 0] (boot ?sem) = ?p"
    unfolding bt by (simp add: machine_defs)
  have ep: "exec (Step 0) ?p = ?q"
    by (simp add: machine_defs)
  then have hp: "history (exec (Step 0) ?p) = Released 0 (- 1) # history ?p"
    by simp
  from release_guard_only_upper [of 0 ?p "- 1"] rp [symmetric] hp bn bp
  have "cell (exec (Step 0) ?p) = cell ?p + ToInt32 (- 1)"
    by blast
  then have 4: "cell ?q = 3 + ToInt32 (- 1)"
    unfolding ep by simp
  from c le bn bs r 1 2 3 rp ep 4 show ?thesis by blast
qed

text \<open>
  Without the 32-bit arithmetic the property fails on a semaphore of capacity zero:
  \<^verbatim>\<open>release(-4294967296)\<close> returns and raises the counter by \<open>4294967296\<close>, and the element
  is where it was.
\<close>

theorem release_exact_counterexample:
  "start 0 = Inr \<lparr>cell = 0, agents = [\<lparr>acquired = 0, running = None, parked = []\<rparr>], history = []\<rparr> \<and>
   release 0 (- 4294967296)
     \<lparr>cell = 0, agents = [\<lparr>acquired = 0, running = None, parked = []\<rparr>], history = []\<rparr>
     = (\<lparr>cell = 0, agents = [\<lparr>acquired = 4294967296, running = None, parked = []\<rparr>],
         history = [Released 0 (- 4294967296)]\<rparr>, Returns) \<and>
   Atomics_load (cell (fst (release 0 (- 4294967296)
     \<lparr>cell = 0, agents = [\<lparr>acquired = 0, running = None, parked = []\<rparr>], history = []\<rparr>)))
     \<noteq> Atomics_load (cell
     \<lparr>cell = 0, agents = [\<lparr>acquired = 0, running = None, parked = []\<rparr>], history = []\<rparr>)
       + (- 4294967296)"
  by (simp add: start_eq machine_defs)

text \<open>
  Beyond \<open>2^53\<close> the sum is rounded before it is stored, and the element no longer moves by
  \<open>num\<close> even in 32-bit arithmetic. On a semaphore of capacity one,
  \<^verbatim>\<open>release(-9007199254740994)\<close> computes \<open>1 - 9007199254740994\<close>, which is the double
  \<open>-9007199254740992\<close>, and the element is left at zero; element plus \<open>num\<close> in 32-bit
  arithmetic would be minus one.
\<close>

lemma release_rounds:
  "start 1 = Inr \<lparr>cell = 1, agents = [\<lparr>acquired = 0, running = None, parked = []\<rparr>], history = []\<rparr> \<and>
   release 0 (- 9007199254740994)
     \<lparr>cell = 1, agents = [\<lparr>acquired = 0, running = None, parked = []\<rparr>], history = []\<rparr>
     = (\<lparr>cell = 0, agents = [\<lparr>acquired = 9007199254740994, running = None, parked = []\<rparr>],
         history = [Released 0 (- 9007199254740994)]\<rparr>, Returns) \<and>
   (1 :: int32) + ToInt32 (- 9007199254740994) = - 1"
  by (simp add: start_eq machine_defs)



section \<open>The counter\<close>

text \<open>Among calls that each ask for at least one permit, the counter of an object is what
  the successful calls of that object took minus what they gave back.\<close>

lemma net_of_absent: "list_all (\<lambda>e. owner e \<noteq> j) h \<Longrightarrow> net_of j h = 0"
  by (induction j h rule: net_of.induct) simp_all

lemma books_put_frame:
  assumes "books s" and "i < length (agents s) \<Longrightarrow> acquired a = acquired (agents s ! i)"
  shows "books (put i a s)"
proof (cases "i < length (agents s)")
  case True
  then have "acquired ((agents s)[i := a] ! j) = acquired (agents s ! j)"
    if "j < length (agents s)" for j
    using that assms(2) by (cases "i = j") simp_all
  then show ?thesis
    using assms(1) by (simp add: books_def put_def)
next
  case False
  then show ?thesis
    using assms(1) by (simp add: books_def put_def)
qed

lemma books_put_cell:
  "books (s\<lparr>cell := c\<rparr>) = books s"
  by (simp add: books_def)

lemma books_acquire_attempt:
  assumes inv: "books s" and fit: "solvent C s" and i: "i < length (agents s)"
    and run: "running (agents s ! i) = Some (Frame m num (Loaded a))"
  shows "books (acquire_attempt i m num a s)"
proof -
  let ?me = "agents s ! i"
  have num: "1 \<le> num" and a: "in_int32 a"
    using solvent_agent [OF fit i] run by (simp_all add: agent_fit_def)
  have hit: "books (put i (?me\<lparr>acquired := acquired ?me + num, running := None\<rparr>)
                (s\<lparr>cell := c, history := Acquired i num # history s\<rparr>))" for c
    using inv i by (auto simp add: books_def put_def nth_list_update)
  have miss: "books (put i (?me\<lparr>running := r\<rparr>) (s\<lparr>cell := c\<rparr>))" for r c
    using inv by (intro books_put_frame) (simp_all add: books_put_cell)
  have park: "books (put i (?me\<lparr>running := r, parked := q\<rparr>) s)" for r q
    using inv by (intro books_put_frame) simp_all
  have stay: "books (put i (?me\<lparr>running := r\<rparr>) s)" for r
    using inv by (intro books_put_frame) simp_all
  show ?thesis
  proof (cases "num \<le> a \<and> sint (cell s) = a")
    case True
    then have "js_add (acquired ?me) num = acquired ?me + num"
      using solvent_take(3) [OF fit i num] by simp
    then show ?thesis
      using True by (simp add: acquire_attempt_def Let_def cas_cases [OF a] hit)
  next
    case False
    then show ?thesis
      by (auto simp add: acquire_attempt_def Let_def cas_cases [OF a] miss park stay
          split: wait_result.splits)
  qed
qed

lemma books_release_attempt:
  assumes inv: "books s" and fit: "solvent C s" and i: "i < length (agents s)"
    and run: "running (agents s ! i) = Some (Frame Release num (Loaded a))"
  shows "books (release_attempt i num a s)"
proof -
  let ?me = "agents s ! i"
  have num: "1 \<le> num" and a: "in_int32 a" and le: "num \<le> acquired ?me"
    using solvent_agent [OF fit i] run by (simp_all add: agent_fit_def)
  have sub: "js_sub (acquired ?me) num = acquired ?me - num"
    by (rule solvent_give(3) [OF fit i num le])
  have hit: "books (put i (?me\<lparr>acquired := acquired ?me - num, running := r\<rparr>)
                (s\<lparr>cell := c, history := Released i num # history s\<rparr>))" for c r
    using inv i by (auto simp add: books_def put_def nth_list_update)
  have miss: "books (put i (?me\<lparr>running := r\<rparr>) s)" for r
    using inv by (intro books_put_frame) simp_all
  show ?thesis
    by (simp add: release_attempt_def Let_def cas_cases [OF a] sub hit miss)
qed

lemma books_notify: "books s \<Longrightarrow> books (s\<lparr>agents := Atomics_notify (agents s)\<rparr>)"
  by (simp add: books_def)

lemma books_step:
  assumes inv: "books s" and fit: "solvent C s"
  shows "books (step i s)"
proof (cases "i < length (agents s)")
  case False
  then show ?thesis using inv by (simp add: step_def)
next
  case i: True
  show ?thesis
  proof (cases "running (agents s ! i)")
    case None
    then show ?thesis using inv by (simp add: step_idle)
  next
    case (Some f)
    obtain m num p where f: "f = Frame m num p" by (cases f)
    show ?thesis
    proof (cases p)
      case Load
      then show ?thesis
        using i Some f inv by (simp add: step_Load books_put_frame)
    next
      case (Loaded a)
      show ?thesis
      proof (cases "m = Release")
        case True
        then have "running (agents s ! i) = Some (Frame Release num (Loaded a))"
          using Some f Loaded by simp
        from books_release_attempt [OF inv fit i this] show ?thesis
          using i Some f Loaded True by (simp add: step_def)
      next
        case False
        have "running (agents s ! i) = Some (Frame m num (Loaded a))"
          using Some f Loaded by simp
        from books_acquire_attempt [OF inv fit i this] show ?thesis
          using i Some f Loaded False by (simp add: step_def)
      qed
    next
      case Waiting
      then show ?thesis using inv i Some f by (simp add: step_def)
    next
      case Woken
      then show ?thesis using inv i Some f by (simp add: step_def)
    next
      case Notify
      let ?s' = "s\<lparr>agents := Atomics_notify (agents s)\<rparr>"
      have "books (put i ((agents ?s' ! i)\<lparr>running := None\<rparr>) ?s')"
        using books_notify [OF inv] by (intro books_put_frame) simp_all
      then show ?thesis
        using i Some f Notify by (simp add: step_def Let_def)
    qed
  qed
qed

lemma books_resume:
  assumes inv: "books s"
  shows "books (resume i k s)"
proof -
  have "books (put i ((agents s ! i)\<lparr>running := r, parked := q\<rparr>) s)" for r q
    using inv by (intro books_put_frame) simp_all
  then show ?thesis
    using inv by (simp add: resume_def Let_def split: frame.splits pc.splits)
qed

lemma books_construct:
  assumes inv: "books s"
  shows "books (construct s)"
proof -
  have "list_all (\<lambda>e. owner e \<noteq> length (agents s)) (history s)"
    using inv by (auto simp add: books_def list_all_iff)
  then have "net_of (length (agents s)) (history s) = 0"
    by (rule net_of_absent)
  then show ?thesis
    using inv by (auto simp add: books_def construct_def nth_append list_all_iff less_Suc_eq)
qed

lemma books_invoke:
  assumes inv: "books s"
  shows "books (fst (invoke i m num s))"
proof -
  have "acquired (fst (enter m num a)) = acquired a" for a
    by (cases m) (simp_all add: enter_def)
  then have "books (put i (fst (enter m num (agents s ! i))) s)"
    using inv by (intro books_put_frame) simp_all
  then show ?thesis
    using inv by (simp add: invoke_def split_beta)
qed

lemma books_exec: "books s \<Longrightarrow> solvent C s \<Longrightarrow> books (exec a s)"
  by (cases a)
    (simp_all add: books_construct books_invoke books_step books_resume books_notify)

lemma books_run:
  assumes "books s" and "solvent C s" and "list_all well_behaved acts"
  shows "books (run acts s)"
  using assms unfolding run_def
  by (induction acts arbitrary: s) (simp_all add: books_exec solvent_exec)

lemma books_boot: "new_Semaphore a = Inr sem \<Longrightarrow> books (boot sem)"
  by (auto simp add: new_Semaphore_def boot_def books_def split: if_splits)

lemma acquired_is_net:
  assumes "new_Semaphore a = Inr sem" and "list_all well_behaved acts"
    and "j < length (agents (run acts (boot sem)))"
  shows "acquired (agents (run acts (boot sem)) ! j) = net_of j (history (run acts (boot sem)))"
  using books_run [OF books_boot [OF assms(1)] solvent_boot [OF assms(1)] assms(2)] assms(3)
  by (simp add: books_def)

text \<open>Unless \<^verbatim>\<open>acquireAsync\<close> is called with a negative number, no counter is ever
  negative.\<close>

lemma frame_tidy_wake: "frame_tidy k f \<Longrightarrow> frame_tidy k (wake f)"
  by (induction f rule: wake.induct) auto

lemma parked_tidy_wake: "parked_tidy f \<Longrightarrow> parked_tidy (wake f)"
  by (induction f rule: wake.induct) auto

lemma tidy_put: "tidy s \<Longrightarrow> agent_tidy a \<Longrightarrow> tidy (put i a s)"
  by (simp add: tidy_def put_def list_all_update)

lemma tidy_agent: "tidy s \<Longrightarrow> i < length (agents s) \<Longrightarrow> agent_tidy (agents s ! i)"
  by (simp add: tidy_def list_all_nth)

lemma tidy_cell: "tidy (s\<lparr>cell := c, history := h\<rparr>) = tidy s" "tidy (s\<lparr>cell := c\<rparr>) = tidy s"
  by (simp_all add: tidy_def)

lemma tidy_notify: "tidy s \<Longrightarrow> tidy (s\<lparr>agents := Atomics_notify (agents s)\<rparr>)"
  by (auto simp add: tidy_def Atomics_notify_def list_all_iff agent_tidy_def frame_tidy_wake
      parked_tidy_wake split: option.splits)

lemma tidy_step:
  assumes inv: "tidy s"
  shows "tidy (step i s)"
proof (cases "i < length (agents s)")
  case False
  then show ?thesis using inv by (simp add: step_def)
next
  case i: True
  let ?me = "agents s ! i"
  have me: "agent_tidy ?me" by (rule tidy_agent [OF inv i])
  show ?thesis
  proof (cases "running ?me")
    case None
    then show ?thesis using inv by (simp add: step_idle)
  next
    case (Some f)
    obtain m num p where f: "f = Frame m num p" by (cases f)
    show ?thesis
    proof (cases p)
      case Load
      have "agent_tidy (?me\<lparr>running := Some (Frame m num (Loaded (sint (cell s))))\<rparr>)"
        using me Some f Load by (auto simp add: agent_tidy_def)
      then show ?thesis
        using i Some f Load inv by (simp add: step_Load tidy_put)
    next
      case (Loaded a)
      show ?thesis
      proof (cases "m = Release")
        case True
        have le: "num \<le> acquired ?me" and acq: "0 \<le> acquired ?me"
          and parked: "list_all parked_tidy (parked ?me)"
          using me Some f Loaded True by (simp_all add: agent_tidy_def)
        have "0 \<le> js_sub (acquired ?me) num"
          unfolding js_sub_def using le by (intro double_nonneg) simp
        then have "agent_tidy (?me\<lparr>acquired := js_sub (acquired ?me) num,
                running := Some (Frame Release num Notify)\<rparr>)"
          and "agent_tidy (?me\<lparr>running := Some (Frame Release num Load)\<rparr>)"
          using le acq parked by (simp_all add: agent_tidy_def)
        then have "tidy (release_attempt i num a s)"
          using inv
          by (simp add: release_attempt_def Let_def tidy_put tidy_cell split: prod.splits)
        then show ?thesis
          using i Some f Loaded True by (simp add: step_def)
      next
        case False
        have num: "0 \<le> num" and acq: "0 \<le> acquired ?me"
          and parked: "list_all parked_tidy (parked ?me)"
          using me Some f Loaded False by (simp_all add: agent_tidy_def)
        have "0 \<le> js_add (acquired ?me) num"
          unfolding js_add_def using num acq by (intro double_nonneg) simp
        then have "agent_tidy (?me\<lparr>acquired := js_add (acquired ?me) num, running := None\<rparr>)"
          and "agent_tidy (?me\<lparr>running := Some (Frame m' num q)\<rparr>)"
          and "agent_tidy (?me\<lparr>running := None, parked := parked ?me @ [Frame m' num q]\<rparr>)"
          if "m' \<noteq> Release" for m' q
          using that num acq parked by (simp_all add: agent_tidy_def)
        then have "tidy (acquire_attempt i m num a s)"
          using inv False
          by (auto simp add: acquire_attempt_def Let_def tidy_cell
              split: prod.splits wait_result.splits intro!: tidy_put)
        then show ?thesis
          using i Some f Loaded False by (simp add: step_def)
      qed
    next
      case Waiting
      then show ?thesis using inv i Some f by (simp add: step_def)
    next
      case Woken
      then show ?thesis using inv i Some f by (simp add: step_def)
    next
      case Notify
      let ?s' = "s\<lparr>agents := Atomics_notify (agents s)\<rparr>"
      have inv': "tidy ?s'" by (rule tidy_notify [OF inv])
      have "agent_tidy (agents ?s' ! i)"
        using i by (intro tidy_agent [OF inv']) simp
      then have "agent_tidy ((agents ?s' ! i)\<lparr>running := None\<rparr>)"
        by (simp add: agent_tidy_def)
      then show ?thesis
        using i Some f Notify inv' by (simp add: step_def Let_def tidy_put)
    qed
  qed
qed

lemma tidy_resume:
  assumes inv: "tidy s"
  shows "tidy (resume i k s)"
proof (cases "i < length (agents s) \<and> running (agents s ! i) = None \<and> k < length (parked (agents s ! i))")
  case False
  then show ?thesis using inv by (auto simp add: resume_def Let_def)
next
  case True
  let ?me = "agents s ! i"
  have i: "i < length (agents s)" and k: "k < length (parked ?me)" using True by simp_all
  have me: "agent_tidy ?me" by (rule tidy_agent [OF inv i])
  obtain m num p where f: "parked ?me ! k = Frame m num p" by (cases "parked ?me ! k")
  have pf: "parked_tidy (Frame m num p)"
    using me k f list_all_nth [of parked_tidy "parked ?me" k] by (simp add: agent_tidy_def)
  show ?thesis
  proof (cases "p = Woken")
    case False
    then show ?thesis using inv True f by (cases p) (simp_all add: resume_def Let_def)
  next
    case Woken: True
    let ?a' = "?me\<lparr>running := Some (Frame m num Load),
                     parked := take k (parked ?me) @ drop (Suc k) (parked ?me)\<rparr>"
    have eq: "resume i k s = put i ?a' s"
      using True f Woken by (simp add: resume_def Let_def)
    have "set (take k (parked ?me) @ drop (Suc k) (parked ?me)) \<subseteq> set (parked ?me)"
      using set_take_subset [of k "parked ?me"] set_drop_subset [of "Suc k" "parked ?me"] by auto
    then have "list_all parked_tidy (take k (parked ?me) @ drop (Suc k) (parked ?me))"
      using me unfolding agent_tidy_def list_all_iff by blast
    then have "agent_tidy ?a'"
      using me pf by (simp add: agent_tidy_def)
    then show ?thesis
      unfolding eq using inv by (intro tidy_put)
  qed
qed

lemma tidy_invoke:
  assumes inv: "tidy s" and ok: "m = AcquireAsync \<longrightarrow> 0 \<le> num"
  shows "tidy (fst (invoke i m num s))"
proof (cases "i < length (agents s) \<and> running (agents s ! i) = None")
  case False
  then show ?thesis using inv by (auto simp add: invoke_def)
next
  case True
  then have i: "i < length (agents s)" by simp
  have "agent_tidy (fst (enter m num (agents s ! i)))"
    using tidy_agent [OF inv i] ok True by (cases m) (auto simp add: enter_def agent_tidy_def)
  then show ?thesis
    using True inv by (simp add: invoke_def split_beta tidy_put)
qed

lemma tidy_construct: "tidy s \<Longrightarrow> tidy (construct s)"
  by (simp add: tidy_def construct_def agent_tidy_def)

lemma tidy_exec: "tidy s \<Longrightarrow> considerate a \<Longrightarrow> tidy (exec a s)"
  by (cases a) (simp_all add: tidy_construct tidy_invoke tidy_step tidy_resume tidy_notify)

lemma tidy_run: "tidy s \<Longrightarrow> list_all considerate acts \<Longrightarrow> tidy (run acts s)"
  unfolding run_def by (induction acts arbitrary: s) (simp_all add: tidy_exec)

lemma counter_nonnegative_otherwise:
  assumes "start c = Inr s" and "list_all considerate acts" and "j < length (agents (run acts s))"
  shows "0 \<le> acquired (agents (run acts s) ! j)"
proof -
  have "tidy s"
    using assms(1) by (auto simp add: start_eq tidy_def agent_tidy_def)
  then have "tidy (run acts s)"
    using assms(2) by (rule tidy_run)
  then show ?thesis
    using assms(3) tidy_agent by (auto simp add: agent_tidy_def)
qed

text \<open>
  C6. Among calls that each ask for at least one permit the counter of an object equals what
  the successful calls of that object took minus what they gave back (\<open>acquired_is_net\<close>),
  so it does not exceed that net, and it is not negative as long as \<^verbatim>\<open>acquireAsync\<close> is
  given no negative number (\<open>counter_nonnegative_otherwise\<close>).
  It can be negative: on a semaphore of capacity zero \<^verbatim>\<open>acquireAsync(-1)\<close> goes through, and
  the accessor then returns minus one.
\<close>

theorem acquiredPermits_goes_negative:
  "start 0 = Inr \<lparr>cell = 0, agents = [\<lparr>acquired = 0, running = None, parked = []\<rparr>], history = []\<rparr> \<and>
   run [Invoke 0 AcquireAsync (- 1), Step 0, Step 0]
     \<lparr>cell = 0, agents = [\<lparr>acquired = 0, running = None, parked = []\<rparr>], history = []\<rparr>
     = \<lparr>cell = 1, agents = [\<lparr>acquired = - 1, running = None, parked = []\<rparr>],
        history = [Acquired 0 (- 1)]\<rparr> \<and>
   acquired (agents (run [Invoke 0 AcquireAsync (- 1), Step 0, Step 0]
     \<lparr>cell = 0, agents = [\<lparr>acquired = 0, running = None, parked = []\<rparr>], history = []\<rparr>) ! 0) < 0 \<and>
   net_of 0 (history (run [Invoke 0 AcquireAsync (- 1), Step 0, Step 0]
     \<lparr>cell = 0, agents = [\<lparr>acquired = 0, running = None, parked = []\<rparr>], history = []\<rparr>)) = - 1"
  by (simp add: start_eq machine_defs)

end
